theory Spec2Isabelle
  imports Complex_Main "HOL-Library.Word"
begin

section \<open>Data model\<close>

text \<open>
  The scalars of the group are the elements of a type \<open>'s\<close> of class \<open>field\<close>
  (\<open>Zero\<close>, \<open>One\<close>, \<open>Add\<close>, \<open>Sub\<close>, \<open>Mul\<close>, \<open>Div\<close> of \<open>abstract.Scalar\<close> are \<open>0\<close>, \<open>1\<close>,
  \<open>+\<close>, \<open>-\<close>, \<open>*\<close>, \<open>/\<close>). The points are the elements of a type \<open>'p\<close> of class
  \<open>ab_group_add\<close> (\<open>Null\<close> is \<open>0\<close>, \<open>Add\<close> is \<open>+\<close>). Everything else the group and the
  suite provide (base point, scalar multiplication, marshalling, hashing, signatures, the
  encryption of deals) is a field of the record \<open>suite\<close>, the handle the Go code passes
  around as \<open>abstract.Group\<close> and \<open>abstract.Suite\<close>.

  Go's \<open>int\<close> is the 64-bit one; values of type \<open>int\<close> are integers, and the two
  conversions that can lose bits (\<open>1 + int64(i)\<close> and \<open>uint32(t)\<close>) are written out.
  \<open>uint32\<close> values are 32-bit words. An \<open>error\<close> result is a value of the datatype
  \<open>error\<close>, one constructor per error the code returns, and \<open>Panic\<close> for a run-time panic.
  Messages (deals, responses, justifications) and the shares inside a deal are taken as
  present: the pointers to them are not \<open>nil\<close>.
\<close>

type_synonym byte = "8 word"
type_synonym bytes = "byte list"
type_synonym uint32 = "32 word"

datatype error =
    ErrNonMatchingGroups
  | ErrNonMatchingBasePoints
  | ErrNonMatchingCoeffs
  | ErrNotEnoughShares
  | ErrDealerInvalidT
  | ErrNotInVerifiers
  | ErrWrongIndexFromDeal
  | ErrDealAlreadyProcessed
  | ErrInvalidTInDeal
  | ErrDifferentSessionIDs
  | ErrShareIndexMismatch
  | ErrIndexOutOfBoundsDeal
  | ErrShareDoesNotVerify
  | ErrInconsistentSessionID
  | ErrIndexOutOfBoundsResponse
  | ErrIndexOutOfBoundsJustification
  | ErrNoComplaint
  | ErrJustificationForApproval
  | ErrIndexOutOfBoundsComplaint
  | ErrResponseExists
  | ErrMarshal
  | ErrSignature
  | ErrCipher
  | ErrUnmarshal
  | Panic

text \<open>\<open>PriShare\<close> and \<open>PubShare\<close>: an index and a value.\<close>

record 's PriShare =
  PriShare_I :: int
  PriShare_V :: 's

record 'p PubShare =
  PubShare_I :: int
  PubShare_V :: 'p

text \<open>
  A \<open>Point\<close> held in an interface variable is a pointer to an object. Go's \<open>==\<close> and
  \<open>!=\<close> on two such variables compare the pointers, not the points, so the base point of a
  \<open>PubPoly\<close> is kept with the address of its object; \<open>None\<close> is \<open>nil\<close>.
\<close>

datatype 'p ptr = Ptr (addr: nat) (obj: 'p)

record ('s, 'p) Deal =
  Deal_SessionID :: bytes
  Deal_SecShare :: "'s PriShare"
  Deal_RndShare :: "'s PriShare"
  Deal_T :: uint32
  Deal_Commitments :: "'p list"

text \<open>
  The suite: \<open>gaddr\<close> is the address of the suite object, which is what \<open>==\<close> and \<open>!=\<close>
  compare on two \<open>abstract.Group\<close> values; \<open>gname\<close> is \<open>String()\<close>;
  \<open>pbase\<close> is \<open>Point().Base()\<close>; \<open>pmul P s\<close> is the
  point \<open>P\<close> multiplied by the scalar \<open>s\<close>; \<open>marshalTo P\<close> are the bytes \<open>P.MarshalTo(w)\<close>
  writes (callers drop its error) and \<open>marshalBinary P\<close> is \<open>P.MarshalBinary()\<close>, \<open>None\<close> for
  an error; \<open>hashSum b\<close> is the digest of \<open>suite.Hash()\<close> after the bytes \<open>b\<close> were written
  to it; \<open>pickPoint seed\<close> is \<open>Point().Pick(nil, suite.Cipher(seed))\<close>; \<open>schnorr\<close> and
  \<open>verifySchnorr\<close> are \<open>sign.Schnorr\<close> and \<open>sign.VerifySchnorr\<close>; \<open>dhExchange\<close> is the
  Diffie-Hellman exchange; \<open>aeadOpen pre ctx nonce cipher\<close> derives the AEAD from the shared
  point and the context and opens the ciphertext with them; \<open>unmarshalDeal\<close> is
  \<open>Deal.UnmarshalBinary\<close>.
\<close>

record ('s, 'p) suite =
  gaddr :: nat
  gname :: string
  pbase :: 'p
  pmul :: "'p \<Rightarrow> 's \<Rightarrow> 'p"
  marshalTo :: "'p \<Rightarrow> bytes"
  marshalBinary :: "'p \<Rightarrow> bytes option"
  hashSum :: "bytes \<Rightarrow> bytes"
  pickPoint :: "bytes \<Rightarrow> 'p"
  schnorr :: "'s \<Rightarrow> bytes \<Rightarrow> bytes option"
  verifySchnorr :: "'p \<Rightarrow> bytes \<Rightarrow> bytes \<Rightarrow> bool"
  dhExchange :: "'s \<Rightarrow> 'p \<Rightarrow> 'p"
  aeadOpen :: "'p \<Rightarrow> bytes \<Rightarrow> bytes \<Rightarrow> bytes \<Rightarrow> bytes option"
  unmarshalDeal :: "bytes \<Rightarrow> ('s, 'p) Deal option"

record ('s, 'p) PriPoly =
  PriPoly_g :: "('s, 'p) suite"
  PriPoly_coeffs :: "'s list"

record ('s, 'p) PubPoly =
  PubPoly_g :: "('s, 'p) suite"
  PubPoly_b :: "'p ptr option"
  PubPoly_commits :: "'p list"

section \<open>The polynomial layer\<close>

text \<open>
  \<open>Scalar().SetInt64(1 + int64(i))\<close>: the sum is a 64-bit signed sum, which wraps.
\<close>

definition wrap64 :: "int \<Rightarrow> int" where
  "wrap64 k = (k + 2 ^ 63) mod 2 ^ 64 - 2 ^ 63"

definition xScalar :: "int \<Rightarrow> 's::field" where
  "xScalar i = of_int (wrap64 (1 + i))"

text \<open>
  \<open>Point().Mul(b, s)\<close>: the point \<open>b\<close> multiplied by the scalar \<open>s\<close>, the standard base
  when \<open>b\<close> is \<open>nil\<close>.
\<close>

definition Mul :: "('s, 'p) suite \<Rightarrow> 'p option \<Rightarrow> 's \<Rightarrow> 'p" where
  "Mul g b s = pmul g (case b of None \<Rightarrow> pbase g | Some P \<Rightarrow> P) s"

text \<open>
  \<open>NewPriPoly(g, t, s, rand)\<close>. The stream \<open>rand\<close> is the sequence of scalars that
  successive \<open>Pick(rand)\<close> calls return; the rest of the stream is returned with the
  polynomial. \<open>make\<close> panics on a negative length and \<open>coeffs[0] = s\<close> on an empty slice.
\<close>

definition NewPriPoly ::
  "('s, 'p) suite \<Rightarrow> int \<Rightarrow> 's option \<Rightarrow> (nat \<Rightarrow> 's) \<Rightarrow>
     error + (('s, 'p) PriPoly \<times> (nat \<Rightarrow> 's))" where
  "NewPriPoly g t s rand =
     (if t \<le> 0 then Inl Panic
      else case s of
        Some c0 \<Rightarrow>
          Inr (\<lparr>PriPoly_g = g, PriPoly_coeffs = c0 # map rand [0..<nat t - 1]\<rparr>,
               \<lambda>k. rand (k + (nat t - 1)))
      | None \<Rightarrow>
          Inr (\<lparr>PriPoly_g = g, PriPoly_coeffs = map rand [0..<nat t]\<rparr>,
               \<lambda>k. rand (k + nat t)))"

definition PriPoly_Threshold :: "('s, 'p) PriPoly \<Rightarrow> int" where
  "PriPoly_Threshold p = int (length (PriPoly_coeffs p))"

text \<open>
  \<open>Eval\<close>: Horner's scheme from the highest coefficient down,
  \<open>sv.Mul(sv, xi); sv.Add(sv, p.coeffs[j])\<close> for \<open>j = t - 1, ..., 0\<close>.
\<close>

definition PriPoly_Eval :: "('s::field, 'p) PriPoly \<Rightarrow> int \<Rightarrow> 's PriShare" where
  "PriPoly_Eval p i =
     \<lparr>PriShare_I = i,
      PriShare_V = foldr (\<lambda>c sv. sv * xScalar i + c) (PriPoly_coeffs p) 0\<rparr>"

definition PriPoly_Shares :: "('s::field, 'p) PriPoly \<Rightarrow> int \<Rightarrow> error + 's PriShare list" where
  "PriPoly_Shares p n =
     (if n < 0 then Inl Panic
      else Inr (map (\<lambda>i. PriPoly_Eval p (int i)) [0..<nat n]))"

definition Commit :: "('s, 'p) PriPoly \<Rightarrow> 'p ptr option \<Rightarrow> ('s, 'p) PubPoly" where
  "Commit p b =
     \<lparr>PubPoly_g = PriPoly_g p, PubPoly_b = b,
      PubPoly_commits = map (\<lambda>c. Mul (PriPoly_g p) (map_option obj b) c) (PriPoly_coeffs p)\<rparr>"

definition NewPubPoly ::
  "('s, 'p) suite \<Rightarrow> 'p ptr option \<Rightarrow> 'p list \<Rightarrow> ('s, 'p) PubPoly" where
  "NewPubPoly g b commits = \<lparr>PubPoly_g = g, PubPoly_b = b, PubPoly_commits = commits\<rparr>"

definition PubPoly_Threshold :: "('s, 'p) PubPoly \<Rightarrow> int" where
  "PubPoly_Threshold p = int (length (PubPoly_commits p))"

definition PubPoly_Eval ::
  "('s::field, 'p::ab_group_add) PubPoly \<Rightarrow> int \<Rightarrow> 'p PubShare" where
  "PubPoly_Eval p i =
     \<lparr>PubShare_I = i,
      PubShare_V = foldr (\<lambda>c pv. pmul (PubPoly_g p) pv (xScalar i) + c) (PubPoly_commits p) 0\<rparr>"

text \<open>
  \<open>PubPoly.Add\<close>: the groups and the base points (both as pointers: \<open>p.g != q.g\<close> and
  \<open>p.b != q.b\<close> compare interface values that hold pointers to the objects) and the
  thresholds have to agree, in this order.
\<close>

definition PubPoly_Add ::
  "('s, 'p::ab_group_add) PubPoly \<Rightarrow> ('s, 'p) PubPoly \<Rightarrow> error + ('s, 'p) PubPoly" where
  "PubPoly_Add p q =
     (if gaddr (PubPoly_g p) \<noteq> gaddr (PubPoly_g q) then Inl ErrNonMatchingGroups
      else if map_option addr (PubPoly_b p) \<noteq> map_option addr (PubPoly_b q)
        then Inl ErrNonMatchingBasePoints
      else if PubPoly_Threshold p \<noteq> PubPoly_Threshold q then Inl ErrNonMatchingCoeffs
      else Inr \<lparr>PubPoly_g = PubPoly_g p, PubPoly_b = PubPoly_b p,
                PubPoly_commits = map (\<lambda>(c, d). c + d) (zip (PubPoly_commits p) (PubPoly_commits q))\<rparr>)"

text \<open>
  Modelled from the spec: the \<open>Add\<close> of the \<open>share\<close> package that \<open>vss\<close> links against
  (\<open>gopkg.in/dedis/crypto.v0/share\<close>, the one with the four-argument \<open>RecoverSecret\<close>),
  whose source is not among the files. The spec gives it as: \<open>p.add(q)\<close> requires identical
  groups and identical \<open>t\<close>, returns a new polynomial with the coefficient-wise sum, and
  fails with a mismatched-group or mismatched-threshold error otherwise. The base points
  are not compared; the sum keeps the base of \<open>p\<close>.
\<close>

definition PubPoly_Add_v0 ::
  "('s, 'p::ab_group_add) PubPoly \<Rightarrow> ('s, 'p) PubPoly \<Rightarrow> error + ('s, 'p) PubPoly" where
  "PubPoly_Add_v0 p q =
     (if gaddr (PubPoly_g p) \<noteq> gaddr (PubPoly_g q) then Inl ErrNonMatchingGroups
      else if PubPoly_Threshold p \<noteq> PubPoly_Threshold q then Inl ErrNonMatchingCoeffs
      else Inr \<lparr>PubPoly_g = PubPoly_g p, PubPoly_b = PubPoly_b p,
                PubPoly_commits = map (\<lambda>(c, d). c + d) (zip (PubPoly_commits p) (PubPoly_commits q))\<rparr>)"

definition Check :: "('s::field, 'p::ab_group_add) PubPoly \<Rightarrow> 's PriShare \<Rightarrow> bool" where
  "Check p s =
     (PubShare_V (PubPoly_Eval p (PriShare_I s)) =
        Mul (PubPoly_g p) (map_option obj (PubPoly_b p)) (PriShare_V s))"

text \<open>
  The homomorphism properties every implementation of \<open>abstract.Group\<close> is expected to have:
  multiplying by two scalars in turn multiplies by their product, and the multiples of one
  point add as their scalars do.
\<close>

definition homomorphic :: "('s::field, 'p::ab_group_add) suite \<Rightarrow> bool" where
  "homomorphic g \<longleftrightarrow>
     (\<forall>P a b. pmul g (pmul g P a) b = pmul g P (a * b)) \<and>
     (\<forall>P a b. pmul g P a + pmul g P b = pmul g P (a + b))"

subsection \<open>Lagrange interpolation\<close>

text \<open>
  \<open>xCoords\<close>: the loop over \<open>i = 0, ..., n - 1\<close> with the counter \<open>c\<close>; it stops at the
  first index that brings the counter to \<open>t\<close>, and the entries after it stay \<open>nil\<close>.
  \<open>xCoords_loop t isNotNil n i c\<close> is the loop from index \<open>i\<close> on: the entries
  \<open>x[i..n)\<close> and the final counter.
\<close>

function xCoords_loop ::
  "int \<Rightarrow> (nat \<Rightarrow> bool) \<Rightarrow> nat \<Rightarrow> nat \<Rightarrow> int \<Rightarrow> ('s::field) option list \<times> int" where
  "xCoords_loop t isNotNil n i c =
     (if i < n then
        (if isNotNil i then
           (if c + 1 \<ge> t then (Some (xScalar (int i)) # replicate (n - i - 1) None, c + 1)
            else (let (xs, c') = xCoords_loop t isNotNil n (i + 1) (c + 1)
                  in (Some (xScalar (int i)) # xs, c')))
         else (let (xs, c') = xCoords_loop t isNotNil n (i + 1) c in (None # xs, c')))
      else ([], c))"
  by pat_completeness auto
termination
  by (relation "measure (\<lambda>(t, isNotNil, n, i, c). n - i)") auto

declare xCoords_loop.simps [simp del]

definition xCoords ::
  "('s::field, 'p) suite \<Rightarrow> int \<Rightarrow> nat \<Rightarrow> (nat \<Rightarrow> bool) \<Rightarrow> error + 's option list" where
  "xCoords g t n isNotNil =
     (case xCoords_loop t isNotNil n 0 0 of
        (x, c) \<Rightarrow> if c < t then Inl ErrNotEnoughShares else Inr x)"

text \<open>
  The inner loop of \<open>RecoverSecret\<close> over \<open>j\<close>: numerator and denominator of the Lagrange
  basis of index \<open>i\<close>, the numerator starting at the share's value.
\<close>

definition basis_loop :: "('s::field) option list \<Rightarrow> nat \<Rightarrow> 's \<Rightarrow> 's \<Rightarrow> 's \<times> 's" where
  "basis_loop x i xi v =
     foldl (\<lambda>(num, den) j.
              case x ! j of
                None \<Rightarrow> (num, den)
              | Some xj \<Rightarrow> if j = i then (num, den) else (num * xj, den * (xj - xi)))
           (v, 1) [0..<length x]"

text \<open>
  The outer loop over \<open>i\<close>. \<open>shares[i].V\<close> on a \<open>nil\<close> share would panic; \<open>x[i]\<close> is only
  set where the share is not \<open>nil\<close>.
\<close>

definition recover_loop ::
  "('s::field) option list \<Rightarrow> 's PriShare option list \<Rightarrow> error + 's" where
  "recover_loop x shares =
     foldl (\<lambda>acc i.
              case acc of
                Inl e \<Rightarrow> Inl e
              | Inr a \<Rightarrow>
                 (case x ! i of
                    None \<Rightarrow> Inr a
                  | Some xi \<Rightarrow>
                     (case shares ! i of
                        None \<Rightarrow> Inl Panic
                      | Some s \<Rightarrow>
                         (case basis_loop x i xi (PriShare_V s) of
                            (num, den) \<Rightarrow> Inr (a + num / den)))))
           (Inr 0) [0..<length x]"

definition RecoverSecret ::
  "('s::field, 'p) suite \<Rightarrow> 's PriShare option list \<Rightarrow> int \<Rightarrow> error + 's" where
  "RecoverSecret g shares t =
     (case xCoords g t (length shares) (\<lambda>i. i < length shares \<and> shares ! i \<noteq> None) of
        Inl e \<Rightarrow> Inl e
      | Inr x \<Rightarrow> recover_loop x shares)"

section \<open>Verifiable secret sharing\<close>

subsection \<open>Messages and state\<close>

record 'p EncryptedDeal =
  EncryptedDeal_DHKey :: 'p
  EncryptedDeal_Signature :: bytes
  EncryptedDeal_Nonce :: bytes
  EncryptedDeal_Cipher :: bytes

record Response =
  Response_SessionID :: bytes
  Response_Index :: uint32
  Response_Approved :: bool
  Response_Signature :: bytes

record ('s, 'p) Justification =
  Justification_SessionID :: bytes
  Justification_Index :: uint32
  Justification_Deal :: "('s, 'p) Deal"
  Justification_Signature :: bytes

text \<open>
  The \<open>aggregator\<close>. The map \<open>responses\<close> is the list of its entries, keys pairwise
  distinct, in the order they were stored; a counting loop over the map is a count over the
  list.
\<close>

record ('s, 'p) aggregator =
  agg_suite :: "('s, 'p) suite"
  agg_dealer :: 'p
  agg_verifiers :: "'p list"
  agg_commits :: "'p list"
  agg_responses :: "(uint32 \<times> Response) list"
  agg_sid :: bytes
  agg_deal :: "('s, 'p) Deal option"
  agg_t :: int
  agg_badDealer :: bool

text \<open>The embedded \<open>*aggregator\<close> of a \<open>Verifier\<close> or \<open>Dealer\<close> is \<open>None\<close> while it is \<open>nil\<close>.\<close>

record ('s, 'p) Verifier =
  v_suite :: "('s, 'p) suite"
  v_longterm :: 's
  v_pub :: 'p
  v_dealer :: 'p
  v_index :: int
  v_verifiers :: "'p list"
  v_hkdfContext :: bytes
  v_aggregator :: "('s, 'p) aggregator option"

record ('s, 'p) Dealer =
  d_suite :: "('s, 'p) suite"
  d_long :: 's
  d_pub :: 'p
  d_secret :: "'s option"
  d_secretCommits :: "'p list"
  d_verifiers :: "'p list"
  d_hkdfContext :: bytes
  d_t :: int
  d_sessionID :: bytes
  d_deals :: "('s, 'p) Deal list"
  d_aggregator :: "('s, 'p) aggregator option"

subsection \<open>Helpers\<close>

text \<open>\<open>int(uint32(t)) == t\<close>: the conversion to \<open>uint32\<close> keeps the low 32 bits.\<close>

definition validT :: "int \<Rightarrow> 'p list \<Rightarrow> bool" where
  "validT t verifiers \<longleftrightarrow>
     2 \<le> t \<and> t \<le> int (length verifiers) \<and> uint (word_of_int t :: uint32) = t"

text \<open>
  \<open>MinimumT\<close>: \<open>(n + 1) / 2\<close> on Go's \<open>int\<close>; the sum wraps and the division truncates
  towards zero.
\<close>

definition MinimumT :: "int \<Rightarrow> int" where
  "MinimumT n = sgn (wrap64 (n + 1)) * (\<bar>wrap64 (n + 1)\<bar> div 2)"

definition deriveH :: "('s, 'p) suite \<Rightarrow> 'p list \<Rightarrow> 'p" where
  "deriveH suite verifiers =
     pickPoint suite (hashSum suite (concat (map (marshalTo suite) verifiers)))"

definition findPub :: "'p list \<Rightarrow> uint32 \<Rightarrow> 'p option" where
  "findPub verifiers idx =
     (if unat idx \<ge> length verifiers then None else Some (verifiers ! unat idx))"

text \<open>\<open>binary.Write(h, binary.LittleEndian, x)\<close> for a \<open>uint32\<close> and for a \<open>bool\<close>.\<close>

definition le32 :: "uint32 \<Rightarrow> bytes" where
  "le32 w = [ucast w, ucast (drop_bit 8 w), ucast (drop_bit 16 w), ucast (drop_bit 24 w)]"

definition bool_byte :: "bool \<Rightarrow> bytes" where
  "bool_byte b = [if b then 1 else 0]"

definition ascii :: "string \<Rightarrow> bytes" where
  "ascii s = map (\<lambda>c. of_nat (of_char c)) s"

text \<open>\<open>sessionID\<close>; the error it returns with the digest is always \<open>nil\<close>.\<close>

definition sessionID ::
  "('s, 'p) suite \<Rightarrow> 'p \<Rightarrow> 'p list \<Rightarrow> 'p list \<Rightarrow> int \<Rightarrow> bytes" where
  "sessionID suite dealer verifiers commitments t =
     hashSum suite
       (marshalTo suite dealer @ concat (map (marshalTo suite) verifiers) @
        concat (map (marshalTo suite) commitments) @ le32 (word_of_int t))"

definition Response_Hash :: "('s, 'p) suite \<Rightarrow> Response \<Rightarrow> bytes" where
  "Response_Hash s r =
     hashSum s
       (ascii ''response'' @ Response_SessionID r @ le32 (Response_Index r) @
        bool_byte (Response_Approved r))"

text \<open>
  Modelled from the spec: \<open>context(suite, dealer, verifiers)\<close>, whose source is not among
  the files; the spec gives the HKDF info as the concatenation of the marshalled dealer
  public key and all verifier public keys in order.
\<close>

definition hkdf_context :: "('s, 'p) suite \<Rightarrow> 'p \<Rightarrow> 'p list \<Rightarrow> bytes" where
  "hkdf_context suite dealer verifiers =
     marshalTo suite dealer @ concat (map (marshalTo suite) verifiers)"

subsection \<open>The aggregator\<close>

definition newAggregator ::
  "('s, 'p) suite \<Rightarrow> 'p \<Rightarrow> 'p list \<Rightarrow> 'p list \<Rightarrow> int \<Rightarrow> bytes \<Rightarrow> ('s, 'p) aggregator" where
  "newAggregator suite dealer verifiers commitments t sid =
     \<lparr>agg_suite = suite, agg_dealer = dealer, agg_verifiers = verifiers,
      agg_commits = commitments, agg_responses = [], agg_sid = sid, agg_deal = None,
      agg_t = t, agg_badDealer = False\<rparr>"

text \<open>
  \<open>VerifyDeal\<close> returns its error (\<open>None\<close> is \<open>nil\<close>) and the aggregator as it leaves it:
  the first deal is recorded before any check of it.
\<close>

definition VerifyDeal ::
  "('s::field, 'p::ab_group_add) aggregator \<Rightarrow> ('s, 'p) Deal \<Rightarrow> bool \<Rightarrow>
     error option \<times> ('s, 'p) aggregator" where
  "VerifyDeal a d inclusion =
     (if agg_deal a \<noteq> None \<and> inclusion then (Some ErrDealAlreadyProcessed, a)
      else
        let a1 = (if agg_deal a = None
                  then a\<lparr>agg_commits := Deal_Commitments d, agg_sid := Deal_SessionID d,
                         agg_deal := Some d\<rparr>
                  else a);
            fi = Deal_SecShare d;
            gi = Deal_RndShare d
        in if \<not> validT (uint (Deal_T d)) (agg_verifiers a1) then (Some ErrInvalidTInDeal, a1)
           else if agg_sid a1 \<noteq> Deal_SessionID d then (Some ErrDifferentSessionIDs, a1)
           else if PriShare_I fi \<noteq> PriShare_I gi then (Some ErrShareIndexMismatch, a1)
           else if PriShare_I fi < 0 \<or> PriShare_I fi \<ge> int (length (agg_verifiers a1))
             then (Some ErrIndexOutOfBoundsDeal, a1)
           else
             let fig = Mul (agg_suite a1) None (PriShare_V fi);
                 H = deriveH (agg_suite a1) (agg_verifiers a1);
                 gih = Mul (agg_suite a1) (Some H) (PriShare_V gi);
                 ci = fig + gih;
                 commitPoly = NewPubPoly (agg_suite a1) None (Deal_Commitments d);
                 pubShare = PubPoly_Eval commitPoly (PriShare_I fi)
             in if ci \<noteq> PubShare_V pubShare then (Some ErrShareDoesNotVerify, a1)
                else (None, a1))"

definition addResponse ::
  "('s, 'p) aggregator \<Rightarrow> Response \<Rightarrow> error option \<times> ('s, 'p) aggregator" where
  "addResponse a r =
     (case findPub (agg_verifiers a) (Response_Index r) of
        None \<Rightarrow> (Some ErrIndexOutOfBoundsComplaint, a)
      | Some pub \<Rightarrow>
         (case map_of (agg_responses a) (Response_Index r) of
            Some r0 \<Rightarrow> (Some ErrResponseExists, a)
          | None \<Rightarrow> (None, a\<lparr>agg_responses := agg_responses a @ [(Response_Index r, r)]\<rparr>)))"

definition verifyResponse ::
  "('s, 'p) aggregator \<Rightarrow> Response \<Rightarrow> error option \<times> ('s, 'p) aggregator" where
  "verifyResponse a r =
     (if Response_SessionID r \<noteq> agg_sid a then (Some ErrInconsistentSessionID, a)
      else case findPub (agg_verifiers a) (Response_Index r) of
        None \<Rightarrow> (Some ErrIndexOutOfBoundsResponse, a)
      | Some pub \<Rightarrow>
         if \<not> verifySchnorr (agg_suite a) pub (Response_Hash (agg_suite a) r)
                (Response_Signature r)
         then (Some ErrSignature, a)
         else addResponse a r)"

text \<open>
  \<open>verifyJustification\<close>: \<open>r.Approved = true\<close> writes through the pointer stored in the
  map, so the entry at \<open>j.Index\<close> changes.
\<close>

definition approve :: "uint32 \<Rightarrow> (uint32 \<times> Response) list \<Rightarrow> (uint32 \<times> Response) list" where
  "approve i rs =
     map (\<lambda>(k, r). if k = i then (k, r\<lparr>Response_Approved := True\<rparr>) else (k, r)) rs"

definition verifyJustification ::
  "('s::field, 'p::ab_group_add) aggregator \<Rightarrow> ('s, 'p) Justification \<Rightarrow>
     error option \<times> ('s, 'p) aggregator" where
  "verifyJustification a j =
     (case findPub (agg_verifiers a) (Justification_Index j) of
        None \<Rightarrow> (Some ErrIndexOutOfBoundsJustification, a)
      | Some pub \<Rightarrow>
         (case map_of (agg_responses a) (Justification_Index j) of
            None \<Rightarrow> (Some ErrNoComplaint, a)
          | Some r \<Rightarrow>
             if Response_Approved r then (Some ErrJustificationForApproval, a)
             else (case VerifyDeal a (Justification_Deal j) False of
                     (Some err, a1) \<Rightarrow> (Some err, a1\<lparr>agg_badDealer := True\<rparr>)
                   | (None, a1) \<Rightarrow>
                       (None, a1\<lparr>agg_responses :=
                                  approve (Justification_Index j) (agg_responses a1)\<rparr>))))"

text \<open>
  \<open>EnoughApprovals\<close> and \<open>DealCertified\<close> have a pointer receiver. \<open>EnoughApprovals\<close> reads
  \<open>a.responses\<close> at once and panics on a \<open>nil\<close> receiver; \<open>DealCertified\<close> tests the
  receiver first.
\<close>

definition EnoughApprovals :: "('s, 'p) aggregator option \<Rightarrow> error + bool" where
  "EnoughApprovals ao =
     (case ao of
        None \<Rightarrow> Inl Panic
      | Some a \<Rightarrow>
          Inr (int (length (filter (\<lambda>(k, r). Response_Approved r) (agg_responses a))) \<ge> agg_t a))"

definition DealCertified :: "('s, 'p) aggregator option \<Rightarrow> error + bool" where
  "DealCertified ao =
     (case ao of
        None \<Rightarrow> Inr False
      | Some a \<Rightarrow>
          let comps = int (length (filter (\<lambda>(k, r). \<not> Response_Approved r) (agg_responses a)));
              tooMuchComplaints = (comps \<ge> agg_t a \<or> agg_badDealer a)
          in (case EnoughApprovals (Some a) of
                Inl e \<Rightarrow> Inl e
              | Inr enough \<Rightarrow> Inr (enough \<and> \<not> tooMuchComplaints)))"

subsection \<open>The verifier\<close>

definition NewVerifier ::
  "('s, 'p) suite \<Rightarrow> 's \<Rightarrow> 'p \<Rightarrow> 'p list \<Rightarrow> error + ('s, 'p) Verifier" where
  "NewVerifier suite longterm dealerKey verifiers =
     (let pub = Mul suite None longterm
      in case filter (\<lambda>i. verifiers ! i = pub) [0..<length verifiers] of
           [] \<Rightarrow> Inl ErrNotInVerifiers
         | i # is \<Rightarrow>
             Inr \<lparr>v_suite = suite, v_longterm = longterm, v_pub = pub, v_dealer = dealerKey,
                  v_index = int i, v_verifiers = verifiers,
                  v_hkdfContext = hkdf_context suite dealerKey verifiers,
                  v_aggregator = None\<rparr>)"

definition decryptDeal ::
  "('s, 'p) Verifier \<Rightarrow> 'p EncryptedDeal \<Rightarrow> error + ('s, 'p) Deal" where
  "decryptDeal v e =
     (case marshalBinary (v_suite v) (EncryptedDeal_DHKey e) of
        None \<Rightarrow> Inl ErrMarshal
      | Some ephBuff \<Rightarrow>
         if \<not> verifySchnorr (v_suite v) (v_dealer v) ephBuff (EncryptedDeal_Signature e)
         then Inl ErrSignature
         else
           let pre = dhExchange (v_suite v) (v_longterm v) (EncryptedDeal_DHKey e)
           in case aeadOpen (v_suite v) pre (v_hkdfContext v) (EncryptedDeal_Nonce e)
                     (EncryptedDeal_Cipher e) of
                None \<Rightarrow> Inl ErrCipher
              | Some decrypted \<Rightarrow>
                 (case unmarshalDeal (v_suite v) decrypted of
                    None \<Rightarrow> Inl ErrUnmarshal
                  | Some d \<Rightarrow> Inr d))"

definition ProcessEncryptedDeal ::
  "('s::field, 'p::ab_group_add) Verifier \<Rightarrow> 'p EncryptedDeal \<Rightarrow>
     (error + Response) \<times> ('s, 'p) Verifier" where
  "ProcessEncryptedDeal v e =
     (case decryptDeal v e of
        Inl err \<Rightarrow> (Inl err, v)
      | Inr d \<Rightarrow>
         if PriShare_I (Deal_SecShare d) \<noteq> v_index v then (Inl ErrWrongIndexFromDeal, v)
         else
           let t = uint (Deal_T d);
               sid = sessionID (v_suite v) (v_dealer v) (v_verifiers v) (Deal_Commitments d) t;
               a0 = (case v_aggregator v of
                       None \<Rightarrow> newAggregator (v_suite v) (v_dealer v) (v_verifiers v)
                                 (Deal_Commitments d) t (Deal_SessionID d)
                     | Some a \<Rightarrow> a)
           in case VerifyDeal a0 d True of
                (err, a1) \<Rightarrow>
                  let r = \<lparr>Response_SessionID = sid,
                           Response_Index = word_of_int (v_index v),
                           Response_Approved = (err = None),
                           Response_Signature = []\<rparr>
                  in if err = Some ErrDealAlreadyProcessed
                     then (Inl ErrDealAlreadyProcessed, v\<lparr>v_aggregator := Some a1\<rparr>)
                     else
                       (case schnorr (v_suite v) (v_longterm v) (Response_Hash (v_suite v) r) of
                          None \<Rightarrow> (Inl ErrSignature, v\<lparr>v_aggregator := Some a1\<rparr>)
                        | Some sg \<Rightarrow>
                           (case addResponse a1 (r\<lparr>Response_Signature := sg\<rparr>) of
                              (Some err2, a2) \<Rightarrow> (Inl err2, v\<lparr>v_aggregator := Some a2\<rparr>)
                            | (None, a2) \<Rightarrow>
                                (Inr (r\<lparr>Response_Signature := sg\<rparr>),
                                 v\<lparr>v_aggregator := Some a2\<rparr>))))"

text \<open>
  \<open>ProcessResponse\<close> and \<open>ProcessJustification\<close> call through the embedded pointer and
  panic while it is \<open>nil\<close>.
\<close>

definition ProcessResponse ::
  "('s, 'p) Verifier \<Rightarrow> Response \<Rightarrow> error option \<times> ('s, 'p) Verifier" where
  "ProcessResponse v resp =
     (case v_aggregator v of
        None \<Rightarrow> (Some Panic, v)
      | Some a \<Rightarrow>
         (case verifyResponse a resp of (err, a1) \<Rightarrow> (err, v\<lparr>v_aggregator := Some a1\<rparr>)))"

definition ProcessJustification ::
  "('s::field, 'p::ab_group_add) Verifier \<Rightarrow> ('s, 'p) Justification \<Rightarrow>
     error option \<times> ('s, 'p) Verifier" where
  "ProcessJustification v dr =
     (case v_aggregator v of
        None \<Rightarrow> (Some Panic, v)
      | Some a \<Rightarrow>
         (case verifyJustification a dr of (err, a1) \<Rightarrow> (err, v\<lparr>v_aggregator := Some a1\<rparr>)))"

definition Verifier_DealCertified :: "('s, 'p) Verifier \<Rightarrow> error + bool" where
  "Verifier_DealCertified v = DealCertified (v_aggregator v)"

definition Verifier_EnoughApprovals :: "('s, 'p) Verifier \<Rightarrow> error + bool" where
  "Verifier_EnoughApprovals v = EnoughApprovals (v_aggregator v)"

text \<open>
  A run of a verifier: the calls of its three message handlers, in order, with the results
  dropped.
\<close>

datatype ('s, 'p) call =
    CallEncryptedDeal "'p EncryptedDeal"
  | CallResponse Response
  | CallJustification "('s, 'p) Justification"

fun step ::
  "('s::field, 'p::ab_group_add) Verifier \<Rightarrow> ('s, 'p) call \<Rightarrow> ('s, 'p) Verifier" where
  "step v (CallEncryptedDeal e) = snd (ProcessEncryptedDeal v e)"
| "step v (CallResponse r) = snd (ProcessResponse v r)"
| "step v (CallJustification j) = snd (ProcessJustification v j)"

definition run ::
  "('s::field, 'p::ab_group_add) Verifier \<Rightarrow> ('s, 'p) call list \<Rightarrow> ('s, 'p) Verifier" where
  "run v cs = foldl step v cs"

text \<open>
  The aggregator states a dealer or a verifier can be in: a new aggregator, and every state
  one of the aggregator's operations leaves.
\<close>

inductive agg_reachable :: "('s::field, 'p::ab_group_add) aggregator \<Rightarrow> bool" where
  reach_new: "agg_reachable (newAggregator suite dealer verifiers commitments t sid)"
| reach_deal: "agg_reachable a \<Longrightarrow> agg_reachable (snd (VerifyDeal a d inclusion))"
| reach_response: "agg_reachable a \<Longrightarrow> agg_reachable (snd (verifyResponse a r))"
| reach_justification: "agg_reachable a \<Longrightarrow> agg_reachable (snd (verifyJustification a j))"
| reach_add: "agg_reachable a \<Longrightarrow> agg_reachable (snd (addResponse a r))"

subsection \<open>The dealer\<close>

text \<open>
  \<open>NewDealer\<close>. \<open>alloc\<close> is the address the allocator gives out next. The two point
  objects that become base points of \<open>F\<close> and \<open>G\<close> are allocated by different calls of
  \<open>suite.Point()\<close>, \<open>H\<close> in \<open>deriveH\<close> and the standard base after it, so they get
  different addresses; the other objects are kept as values. \<open>F.Add(G)\<close> is the \<open>Add\<close> of
  the \<open>share\<close> package that \<open>vss\<close> imports, \<open>PubPoly_Add_v0\<close>.
\<close>

definition NewDealer ::
  "('s::field, 'p::ab_group_add) suite \<Rightarrow> 's \<Rightarrow> 's option \<Rightarrow> 'p list \<Rightarrow> (nat \<Rightarrow> 's) \<Rightarrow> int \<Rightarrow>
     nat \<Rightarrow> error + ('s, 'p) Dealer" where
  "NewDealer suite longterm secret verifiers r t alloc =
     (if \<not> validT t verifiers then Inl ErrDealerInvalidT
      else
        let H = Ptr alloc (deriveH suite verifiers)
        in case NewPriPoly suite t secret r of
             Inl e \<Rightarrow> Inl e
           | Inr (f, r1) \<Rightarrow>
              (case NewPriPoly suite t None r1 of
                 Inl e \<Rightarrow> Inl e
               | Inr (g, r2) \<Rightarrow>
                  let pub = Mul suite None longterm;
                      F = Commit f (Some (Ptr (alloc + 1) (pbase suite)));
                      secretCommits = PubPoly_commits F;
                      G = Commit g (Some H)
                  in case PubPoly_Add_v0 F G of
                       Inl e \<Rightarrow> Inl e
                     | Inr C \<Rightarrow>
                        let commitments = PubPoly_commits C;
                            sid = sessionID suite pub verifiers commitments t
                        in Inr \<lparr>d_suite = suite, d_long = longterm, d_pub = pub,
                                d_secret = secret, d_secretCommits = secretCommits,
                                d_verifiers = verifiers,
                                d_hkdfContext = hkdf_context suite pub verifiers,
                                d_t = t, d_sessionID = sid,
                                d_deals =
                                  map (\<lambda>i. \<lparr>Deal_SessionID = sid,
                                            Deal_SecShare = PriPoly_Eval f (int i),
                                            Deal_RndShare = PriPoly_Eval g (int i),
                                            Deal_T = word_of_int t,
                                            Deal_Commitments = commitments\<rparr>)
                                      [0..<length verifiers],
                                d_aggregator =
                                  Some (newAggregator suite pub verifiers commitments t sid)\<rparr>))"

section \<open>Specification-side notions\<close>

text \<open>
  Lagrange interpolation at 0 as the specification words it: the sum over the collected
  indices \<open>i\<close> of \<open>s\<^sub>i.v \<cdot> L\<^sub>i(0)\<close> with
  \<open>L\<^sub>i(0) = \<Prod>\<^sub>j\<^sub>\<noteq>\<^sub>i x\<^sub>j / (x\<^sub>j - x\<^sub>i)\<close> over the collected \<open>j\<close>, where \<open>x\<^sub>k\<close> is the
  x-coordinate of index \<open>k\<close>; and the first \<open>m\<close> indices of non-\<open>nil\<close> shares.
\<close>

definition first_nonnil :: "nat \<Rightarrow> 'a option list \<Rightarrow> nat list" where
  "first_nonnil m shares = take m (filter (\<lambda>i. shares ! i \<noteq> None) [0..<length shares])"

definition interpolate0 :: "nat list \<Rightarrow> ('s::field) PriShare option list \<Rightarrow> 's" where
  "interpolate0 sel shares =
     (\<Sum>i\<leftarrow>sel. case shares ! i of
        None \<Rightarrow> 0
      | Some s \<Rightarrow> PriShare_V s *
          (\<Prod>j\<leftarrow>filter (\<lambda>j. j \<noteq> i) sel.
             xScalar (int j) / (xScalar (int j) - xScalar (int i))))"

text \<open>The same sum over a finite set of nodes \<open>x i\<close> with values \<open>f i\<close>.\<close>

definition lagrange0 :: "('i \<Rightarrow> 's::field) \<Rightarrow> 'i set \<Rightarrow> ('i \<Rightarrow> 's) \<Rightarrow> 's" where
  "lagrange0 x S f = (\<Sum>i\<in>S. f i * (\<Prod>j\<in>S - {i}. x j / (x j - x i)))"

text \<open>
  The stored responses as a map from verifier index to response, and the numbers of
  approvals and of complaints among them.
\<close>

definition stored :: "('s, 'p) aggregator \<Rightarrow> uint32 \<Rightarrow> Response option" where
  "stored a = map_of (agg_responses a)"

definition approvals :: "('s, 'p) aggregator \<Rightarrow> nat" where
  "approvals a = card {k. \<exists>r. stored a k = Some r \<and> Response_Approved r}"

definition complaints :: "('s, 'p) aggregator \<Rightarrow> nat" where
  "complaints a = card {k. \<exists>r. stored a k = Some r \<and> \<not> Response_Approved r}"

section \<open>A small suite for concrete runs\<close>

text \<open>
  The rationals as scalars and, written additively with base point 1, as points; \<open>H\<close> is
  the point 2. A point is marshalled as one byte, its integer part; the hash is the
  identity; every signature verifies; a ciphertext opens to itself and decodes as \<open>dec\<close>
  says.
\<close>

definition toy_suite :: "(bytes \<Rightarrow> (rat, rat) Deal option) \<Rightarrow> (rat, rat) suite" where
  "toy_suite dec =
     \<lparr>gaddr = 0, gname = ''toy'', pbase = 1, pmul = (\<lambda>P s. P * s),
      marshalTo = (\<lambda>P. [word_of_int \<lfloor>P\<rfloor>]),
      marshalBinary = (\<lambda>P. Some [word_of_int \<lfloor>P\<rfloor>]),
      hashSum = (\<lambda>b. b), pickPoint = (\<lambda>b. 2),
      schnorr = (\<lambda>s m. Some []), verifySchnorr = (\<lambda>P m sg. True),
      dhExchange = (\<lambda>s P. P * s), aeadOpen = (\<lambda>k ctx n c. Some c),
      unmarshalDeal = dec\<rparr>"

text \<open>
  A sharing with threshold 2 among the verifiers with public keys 3 and 4:
  \<open>f(x) = 5 + 3x\<close>, \<open>g(x) = 1 + x\<close>, commitments \<open>f\<^sub>k \<cdot> 1 + g\<^sub>k \<cdot> 2\<close>. \<open>good_deal\<close> is the deal
  of verifier 0, \<open>bad_deal\<close> the same deal with a wrong secret share. The dealer's public
  key is 9, and \<open>toy_sid\<close> is the session identifier of this sharing.
\<close>

definition toy_sid :: bytes where
  "toy_sid = [9, 3, 4, 7, 5, 2, 0, 0, 0]"

definition good_deal :: "bytes \<Rightarrow> (rat, rat) Deal" where
  "good_deal sid =
     \<lparr>Deal_SessionID = sid,
      Deal_SecShare = \<lparr>PriShare_I = 0, PriShare_V = 8\<rparr>,
      Deal_RndShare = \<lparr>PriShare_I = 0, PriShare_V = 2\<rparr>,
      Deal_T = 2, Deal_Commitments = [7, 5]\<rparr>"

definition bad_deal :: "bytes \<Rightarrow> (rat, rat) Deal" where
  "bad_deal sid = (good_deal sid)\<lparr>Deal_SecShare := \<lparr>PriShare_I = 0, PriShare_V = 9\<rparr>\<rparr>"

definition toy :: "(rat, rat) suite" where
  "toy = toy_suite (\<lambda>b. None)"

definition toy_response :: "uint32 \<Rightarrow> bool \<Rightarrow> Response" where
  "toy_response i ok =
     \<lparr>Response_SessionID = toy_sid, Response_Index = i, Response_Approved = ok,
      Response_Signature = []\<rparr>"

definition toy_justification :: "(rat, rat) Deal \<Rightarrow> (rat, rat) Justification" where
  "toy_justification d =
     \<lparr>Justification_SessionID = toy_sid, Justification_Index = 0, Justification_Deal = d,
      Justification_Signature = []\<rparr>"

definition toy_agg :: "(rat, rat) aggregator" where
  "toy_agg = newAggregator toy 9 [3, 4] [7, 5] 2 toy_sid"

definition complained :: "(rat, rat) aggregator" where
  "complained = snd (addResponse toy_agg (toy_response 0 False))"

text \<open>
  States of the toy aggregator for concrete runs: \<open>latched\<close> after a justification with the
  bad deal, \<open>justified\<close> after a second justification with the good deal, \<open>both_approved\<close>
  after the approval of verifier 1 on top; \<open>certified\<close> after the approvals of both verifiers
  on a new aggregator; \<open>zero_agg\<close> the aggregator a verifier creates on a deal whose \<open>T\<close> is 0.
  \<open>toy_verifier\<close> is what \<open>NewVerifier\<close> returns for the secret key 3,
  with the aggregator given; \<open>toy_encrypted\<close> is an encrypted deal.
\<close>

definition latched :: "(rat, rat) aggregator" where
  "latched = snd (verifyJustification complained (toy_justification (bad_deal toy_sid)))"

definition justified :: "(rat, rat) aggregator" where
  "justified = snd (verifyJustification latched (toy_justification (good_deal toy_sid)))"

definition both_approved :: "(rat, rat) aggregator" where
  "both_approved = snd (addResponse justified (toy_response 1 True))"

definition certified :: "(rat, rat) aggregator" where
  "certified = snd (addResponse (snd (addResponse toy_agg (toy_response 0 True))) (toy_response 1 True))"

definition zero_agg :: "(rat, rat) aggregator" where
  "zero_agg = newAggregator toy 9 [3, 4] [7, 5] 0 toy_sid"

definition toy_verifier ::
  "(rat, rat) suite \<Rightarrow> (rat, rat) aggregator option \<Rightarrow> (rat, rat) Verifier" where
  "toy_verifier s ao =
     \<lparr>v_suite = s, v_longterm = 3, v_pub = 3, v_dealer = 9, v_index = 0, v_verifiers = [3, 4],
      v_hkdfContext = [9, 3, 4], v_aggregator = ao\<rparr>"

definition toy_encrypted :: "rat EncryptedDeal" where
  "toy_encrypted =
     \<lparr>EncryptedDeal_DHKey = 1, EncryptedDeal_Signature = [], EncryptedDeal_Nonce = [],
      EncryptedDeal_Cipher = []\<rparr>"

section \<open>Properties\<close>

subsection \<open>The small suite\<close>

lemma toy_fields [simp]:
  "pbase (toy_suite dec) = 1" "pmul (toy_suite dec) = (\<lambda>P s. P * s)"
  "marshalTo (toy_suite dec) = (\<lambda>P. [word_of_int \<lfloor>P\<rfloor>])"
  "marshalBinary (toy_suite dec) = (\<lambda>P. Some [word_of_int \<lfloor>P\<rfloor>])"
  "hashSum (toy_suite dec) = (\<lambda>b. b)" "pickPoint (toy_suite dec) = (\<lambda>b. 2)"
  "schnorr (toy_suite dec) = (\<lambda>s m. Some [])" "verifySchnorr (toy_suite dec) = (\<lambda>P m sg. True)"
  "dhExchange (toy_suite dec) = (\<lambda>s P. P * s)" "aeadOpen (toy_suite dec) = (\<lambda>k ctx n c. Some c)"
  "unmarshalDeal (toy_suite dec) = dec"
  by (simp_all add: toy_suite_def)

lemma homomorphic_toy: "homomorphic (toy_suite dec)"
  by (simp add: homomorphic_def algebra_simps)

lemma wrap64_small: "0 \<le> k \<Longrightarrow> k < 2 ^ 63 \<Longrightarrow> wrap64 k = k"
  by (simp add: wrap64_def)

lemma xScalar_0: "xScalar 0 = (1 :: rat)"
  by (simp add: xScalar_def wrap64_def)

lemma xScalar_small: "i < 2 ^ 62 \<Longrightarrow> (xScalar (int i) :: rat) = 1 + of_nat i"
  by (simp add: xScalar_def wrap64_small)

lemma xScalar_inj_rat: "n \<le> 2 ^ 62 \<Longrightarrow> inj_on (\<lambda>i. xScalar (int i) :: rat) {0..<n}"
  by (rule inj_onI) (simp add: xScalar_small)

lemma validT_toy: "validT (uint (2 :: uint32)) [3, 4 :: rat]"
  by (simp add: validT_def)

lemma le32_2: "le32 2 = [2, 0, 0, 0]"
  by (simp add: le32_def drop_bit_eq_div)

lemma sessionID_toy: "sessionID (toy_suite dec) 9 [3, 4] [7, 5] 2 = toy_sid"
  by (simp add: sessionID_def le32_2 toy_sid_def)

subsection \<open>Lagrange interpolation at 0\<close>

lemma lagrange0_add:
  "lagrange0 x S (\<lambda>i. f i + g i) = lagrange0 x S f + lagrange0 x S g"
  by (simp add: lagrange0_def sum.distrib distrib_right)

lemma lagrange0_scale:
  "lagrange0 x S (\<lambda>i. c * f i) = c * lagrange0 x S f"
  by (simp add: lagrange0_def sum_distrib_left mult.assoc)

lemma lagrange0_remove:
  assumes fin: "finite S" and a: "a \<in> S" and inj: "inj_on x S"
  shows "lagrange0 x S (\<lambda>i. (x i - x a) * g i) = - x a * lagrange0 x (S - {a}) g"
proof -
  have step: "(x i - x a) * g i * (\<Prod>j\<in>S - {i}. x j / (x j - x i))
            = - x a * (g i * (\<Prod>j\<in>S - {a} - {i}. x j / (x j - x i)))"
    if i: "i \<in> S - {a}" for i
  proof -
    from i a inj have ne: "x a \<noteq> x i" by (auto dest: inj_onD)
    have "a \<in> S - {i}" using i a by auto
    then have e1: "(\<Prod>j\<in>S - {i}. x j / (x j - x i))
             = x a / (x a - x i) * (\<Prod>j\<in>S - {i} - {a}. x j / (x j - x i))"
      using fin by (simp add: prod.remove)
    have e2: "S - {i} - {a} = S - {a} - {i}" by auto
    have "(x i - x a) * (x a / (x a - x i)) = - ((x a - x i) * (x a / (x a - x i)))"
      by (simp only: minus_mult_left minus_diff_eq)
    also have "\<dots> = - x a" using ne by simp
    finally have e3: "(x i - x a) * (x a / (x a - x i)) = - x a" .
    have "(x i - x a) * g i * (\<Prod>j\<in>S - {i}. x j / (x j - x i))
        = (x i - x a) * (x a / (x a - x i)) * (g i * (\<Prod>j\<in>S - {a} - {i}. x j / (x j - x i)))"
      by (simp only: e1 e2 mult_ac)
    then show ?thesis by (simp only: e3)
  qed
  have "lagrange0 x S (\<lambda>i. (x i - x a) * g i)
      = (\<Sum>i\<in>S - {a}. (x i - x a) * g i * (\<Prod>j\<in>S - {i}. x j / (x j - x i)))"
    unfolding lagrange0_def using fin a by (simp add: sum.remove)
  also have "\<dots> = (\<Sum>i\<in>S - {a}. - x a * (g i * (\<Prod>j\<in>S - {a} - {i}. x j / (x j - x i))))"
    by (rule sum.cong) (simp_all add: step)
  also have "\<dots> = - x a * lagrange0 x (S - {a}) g"
    unfolding lagrange0_def by (simp only: sum_distrib_left)
  finally show ?thesis .
qed

lemma two_point_aux:
  "1 / d * (u * 1) + - (1 / d) * (v * 1) = (u - v) / (d::'a::field)"
  by (simp add: diff_divide_distrib)

lemma lagrange0_one:
  "finite S \<Longrightarrow> S \<noteq> {} \<Longrightarrow> inj_on x S \<Longrightarrow> lagrange0 x S (\<lambda>i. 1) = 1"
proof (induction "card S" arbitrary: S rule: less_induct)
  case less
  from less.prems obtain a where a: "a \<in> S" by auto
  show ?case
  proof (cases "S = {a}")
    case True
    then show ?thesis by (simp add: lagrange0_def)
  next
    case False
    with a obtain b where b: "b \<in> S" "b \<noteq> a" by auto
    from a b less.prems have ne: "x b \<noteq> x a" by (auto dest: inj_onD)
    have ca: "card (S - {a}) < card S"
      by (rule card_Diff1_less [OF less.prems(1) a])
    have cb: "card (S - {b}) < card S"
      by (rule card_Diff1_less [OF less.prems(1) b(1)])
    have ia: "inj_on x (S - {a})" and ib: "inj_on x (S - {b})"
      using less.prems(3) by (auto intro: inj_on_subset)
    have Sa: "lagrange0 x (S - {a}) (\<lambda>i. 1) = 1"
      using less.hyps [OF ca _ _ ia] less.prems(1) b by auto
    have Sb: "lagrange0 x (S - {b}) (\<lambda>i. 1) = 1"
      using less.hyps [OF cb _ _ ib] less.prems(1) a b by auto
    have neg: "1 / (x a - x b) = - (1 / (x b - x a))"
      by (metis minus_diff_eq minus_divide_right)
    have split: "1 / (x b - x a) * ((x i - x a) * 1) + 1 / (x a - x b) * ((x i - x b) * 1) = 1"
      for i
    proof -
      have "1 / (x b - x a) * ((x i - x a) * 1) + 1 / (x a - x b) * ((x i - x b) * 1)
          = ((x i - x a) - (x i - x b)) / (x b - x a)"
        by (simp only: neg two_point_aux)
      also have "\<dots> = (x b - x a) / (x b - x a)"
        by (rule arg_cong2 [where f = "(/)"]) simp_all
      also have "\<dots> = 1" by (rule divide_self) (use ne in simp)
      finally show ?thesis .
    qed
    have "lagrange0 x S (\<lambda>i. 1)
        = lagrange0 x S (\<lambda>i. 1 / (x b - x a) * ((x i - x a) * 1) + 1 / (x a - x b) * ((x i - x b) * 1))"
      by (simp only: split)
    also have "\<dots> = 1 / (x b - x a) * (- x a * lagrange0 x (S - {a}) (\<lambda>i. 1))
                    + 1 / (x a - x b) * (- x b * lagrange0 x (S - {b}) (\<lambda>i. 1))"
      using lagrange0_remove [OF less.prems(1) a less.prems(3), of "\<lambda>i. 1"]
        lagrange0_remove [OF less.prems(1) b(1) less.prems(3), of "\<lambda>i. 1"]
      by (simp only: lagrange0_add lagrange0_scale)
    also have "\<dots> = (- x a - (- x b)) / (x b - x a)"
      by (simp only: Sa Sb neg two_point_aux)
    also have "\<dots> = (x b - x a) / (x b - x a)"
      by (rule arg_cong2 [where f = "(/)"]) simp_all
    also have "\<dots> = 1" by (rule divide_self) (use ne in simp)
    finally show ?thesis .
  qed
qed

lemma lagrange0_monomial:
  "finite S \<Longrightarrow> inj_on x S \<Longrightarrow> k < card S \<Longrightarrow>
     lagrange0 x S (\<lambda>i. x i ^ k) = (if k = 0 then 1 else 0)"
proof (induction k arbitrary: S)
  case 0
  then have "S \<noteq> {}" by auto
  with 0 show ?case by (simp add: lagrange0_one)
next
  case (Suc k)
  then obtain a where a: "a \<in> S" by (cases "S = {}") auto
  have r1: "lagrange0 x (S - {a}) (\<lambda>i. x i ^ k) = (if k = 0 then 1 else 0)"
    using Suc.prems a by (intro Suc.IH) (auto intro: inj_on_subset)
  have r2: "lagrange0 x S (\<lambda>i. x i ^ k) = (if k = 0 then 1 else 0)"
    using Suc.prems by (intro Suc.IH) auto
  have "lagrange0 x S (\<lambda>i. x i ^ Suc k)
      = lagrange0 x S (\<lambda>i. (x i - x a) * x i ^ k + x a * x i ^ k)"
    by (simp add: algebra_simps)
  also have "\<dots> = - x a * lagrange0 x (S - {a}) (\<lambda>i. x i ^ k) + x a * lagrange0 x S (\<lambda>i. x i ^ k)"
    using lagrange0_remove [OF Suc.prems(1) a Suc.prems(2), of "\<lambda>i. x i ^ k"]
    by (simp only: lagrange0_add lagrange0_scale)
  also have "\<dots> = 0" by (simp add: r1 r2)
  finally show ?case by simp
qed

lemma lagrange0_sum:
  "finite K \<Longrightarrow> lagrange0 x S (\<lambda>i. \<Sum>k\<in>K. f k i) = (\<Sum>k\<in>K. lagrange0 x S (f k))"
proof (induction K rule: finite_induct)
  case empty
  show ?case by (simp add: lagrange0_def)
next
  case (insert k K)
  then show ?case by (simp add: lagrange0_add)
qed

lemma horner_sum:
  "foldr (\<lambda>c sv. sv * z + c) cs (0::'a::field) = (\<Sum>k<length cs. cs ! k * z ^ k)"
proof (induction cs)
  case Nil
  show ?case by simp
next
  case (Cons c cs)
  have "(\<Sum>k<Suc (length cs). (c # cs) ! k * z ^ k)
      = c + (\<Sum>k<length cs. cs ! k * z ^ Suc k)"
    by (simp only: length_Cons sum.lessThan_Suc_shift) simp
  also have "\<dots> = c + (\<Sum>k<length cs. cs ! k * z ^ k * z)"
    by (simp add: mult.assoc power_commutes)
  also have "\<dots> = c + (\<Sum>k<length cs. cs ! k * z ^ k) * z"
    by (simp only: sum_distrib_right)
  finally show ?case using Cons by simp
qed

lemma lagrange0_poly:
  assumes "finite S" "inj_on x S" "length cs \<le> card S" "cs \<noteq> []"
  shows "lagrange0 x S (\<lambda>i. foldr (\<lambda>c sv. sv * x i + c) cs 0) = cs ! 0"
proof -
  have "lagrange0 x S (\<lambda>i. foldr (\<lambda>c sv. sv * x i + c) cs 0)
      = lagrange0 x S (\<lambda>i. \<Sum>k<length cs. cs ! k * x i ^ k)"
    by (simp add: horner_sum)
  also have "\<dots> = (\<Sum>k<length cs. cs ! k * lagrange0 x S (\<lambda>i. x i ^ k))"
    by (simp add: lagrange0_sum lagrange0_scale)
  also have "\<dots> = (\<Sum>k<length cs. cs ! k * (if k = 0 then 1 else 0))"
    using assms by (intro sum.cong refl) (simp add: lagrange0_monomial)
  also have "\<dots> = cs ! 0"
    using assms(4) by (simp add: sum.delta' if_distrib[of "\<lambda>u. _ * u"] cong: if_cong)
  finally show ?thesis .
qed

subsection \<open>The x-coordinates of the collected shares\<close>

lemma xCoords_loop_counter:
  "c \<le> snd (xCoords_loop t P n i c :: ('s::field) option list \<times> int)"
proof (induction t P n i c rule: xCoords_loop.induct)
  case (1 t P n i c)
  show ?case
  proof (cases "i < n")
    case False
    then show ?thesis by (subst xCoords_loop.simps) simp
  next
    case True
    note lt = this
    show ?thesis
    proof (cases "P i")
      case False
      with lt "1.IH"(2) show ?thesis
        by (subst xCoords_loop.simps) (simp add: split_beta)
    next
      case True
      note p = this
      show ?thesis
      proof (cases "c + 1 \<ge> t")
        case True
        with lt p show ?thesis by (subst xCoords_loop.simps) simp
      next
        case False
        with lt p "1.IH"(1) show ?thesis
          by (subst xCoords_loop.simps) (simp add: split_beta)
      qed
    qed
  qed
qed

lemma xCoords_loop_char:
  "c < t \<Longrightarrow> i \<le> n \<Longrightarrow>
   (xCoords_loop t P n i c :: ('s::field) option list \<times> int) =
     (map (\<lambda>k. if k \<in> set (take (nat (t - c)) (filter P [i..<n]))
               then Some (xScalar (int k)) else None) [i..<n],
      c + int (length (take (nat (t - c)) (filter P [i..<n]))))"
proof (induction t P n i c rule: xCoords_loop.induct)
  case (1 t P n i c)
  show ?case
  proof (cases "i < n")
    case False
    with "1.prems" show ?thesis by (subst xCoords_loop.simps) simp
  next
    case True
    note lt = this
    then have upt: "[i..<n] = i # [Suc i..<n]" by (simp add: upt_conv_Cons)
    show ?thesis
    proof (cases "P i")
      case False
      note np = this
      have "(xCoords_loop t P n (i + 1) c :: 's option list \<times> int) =
         (map (\<lambda>k. if k \<in> set (take (nat (t - c)) (filter P [i + 1..<n]))
               then Some (xScalar (int k)) else None) [i + 1..<n],
          c + int (length (take (nat (t - c)) (filter P [i + 1..<n]))))"
        using "1.IH"(2) [OF lt np] "1.prems" lt by simp
      moreover have "i \<notin> set (take (nat (t - c)) (filter P [Suc i..<n]))"
        by (auto dest: in_set_takeD)
      ultimately show ?thesis
        using lt np by (subst xCoords_loop.simps) (simp add: upt)
    next
      case True
      note p = this
      show ?thesis
      proof (cases "c + 1 \<ge> t")
        case True
        with "1.prems" have tc: "nat (t - c) = Suc 0" by simp
        have "map (\<lambda>k. if k = i then Some (xScalar (int k)) else None) [Suc i..<n]
            = replicate (n - i - 1) (None :: 's option)"
          by (rule nth_equalityI) auto
        with lt p True show ?thesis
          by (subst xCoords_loop.simps) (simp add: upt tc)
      next
        case False
        then have tc: "nat (t - c) = Suc (nat (t - (c + 1)))" by simp
        have ih: "(xCoords_loop t P n (i + 1) (c + 1) :: 's option list \<times> int) =
           (map (\<lambda>k. if k \<in> set (take (nat (t - (c + 1))) (filter P [i + 1..<n]))
                 then Some (xScalar (int k)) else None) [i + 1..<n],
            c + 1 + int (length (take (nat (t - (c + 1))) (filter P [i + 1..<n]))))"
          using "1.IH"(1) [OF lt p False] False lt by simp
        have notin: "i \<notin> set (take (nat (t - (c + 1))) (filter P [Suc i..<n]))"
          by (auto dest: in_set_takeD)
        have "map (\<lambda>k. if k = i \<or> k \<in> set (take (nat (t - (c + 1))) (filter P [Suc i..<n]))
                 then Some (xScalar (int k)) else None) [Suc i..<n]
            = map (\<lambda>k. if k \<in> set (take (nat (t - (c + 1))) (filter P [Suc i..<n]))
                 then Some (xScalar (int k) :: 's) else None) [Suc i..<n]"
          by (rule map_cong) auto
        with lt p False ih show ?thesis
          by (subst xCoords_loop.simps) (simp add: upt tc)
      qed
    qed
  qed
qed

lemma cons_entries:
  fixes y :: "('s::field) option"
  assumes y: "y = None \<or> y = Some (xScalar (int i))"
    and len: "length ys = n - (i + 1)"
    and ys: "\<forall>k<n - (i + 1). ys ! k = None \<or> ys ! k = Some (xScalar (int (i + 1 + k)))"
    and lt: "i < n"
  shows "length (y # ys) = n - i \<and>
     (\<forall>k<n - i. (y # ys) ! k = None \<or> (y # ys) ! k = Some (xScalar (int (i + k))))"
proof (intro conjI allI impI)
  show "length (y # ys) = n - i" using len lt by simp
next
  fix k assume k: "k < n - i"
  show "(y # ys) ! k = None \<or> (y # ys) ! k = Some (xScalar (int (i + k)))"
  proof (cases k)
    case 0
    with y show ?thesis by simp
  next
    case (Suc k')
    with k have "k' < n - (i + 1)" by simp
    with ys have "ys ! k' = None \<or> ys ! k' = Some (xScalar (int (i + 1 + k')))" by blast
    then show ?thesis by (simp add: Suc)
  qed
qed

lemma xCoords_loop_entries:
  "i \<le> n \<Longrightarrow>
   length (fst (xCoords_loop t P n i c :: ('s::field) option list \<times> int)) = n - i \<and>
   (\<forall>k<n - i. fst (xCoords_loop t P n i c :: 's option list \<times> int) ! k = None \<or>
              fst (xCoords_loop t P n i c :: 's option list \<times> int) ! k
                = Some (xScalar (int (i + k))))"
proof (induction t P n i c rule: xCoords_loop.induct)
  case (1 t P n i c)
  show ?case
  proof (cases "i < n")
    case False
    with "1.prems" show ?thesis by (subst (1 2 3) xCoords_loop.simps) simp
  next
    case True
    note lt = this
    show ?thesis
    proof (cases "P i")
      case False
      note np = this
      have ih: "length (fst (xCoords_loop t P n (i + 1) c :: 's option list \<times> int)) = n - (i + 1) \<and>
         (\<forall>k<n - (i + 1). fst (xCoords_loop t P n (i + 1) c :: 's option list \<times> int) ! k = None \<or>
              fst (xCoords_loop t P n (i + 1) c :: 's option list \<times> int) ! k
                = Some (xScalar (int (i + 1 + k))))"
        using "1.IH"(2) [OF lt np] lt by simp
      have eq: "fst (xCoords_loop t P n i c :: 's option list \<times> int)
          = None # fst (xCoords_loop t P n (i + 1) c)"
        using lt np by (subst xCoords_loop.simps) (simp add: split_beta)
      show ?thesis
        unfolding eq by (rule cons_entries) (use ih lt in blast)+
    next
      case True
      note p = this
      show ?thesis
      proof (cases "c + 1 \<ge> t")
        case True
        have eq: "fst (xCoords_loop t P n i c :: 's option list \<times> int)
            = Some (xScalar (int i)) # replicate (n - i - 1) None"
          using lt p True by (subst xCoords_loop.simps) simp
        show ?thesis
          unfolding eq by (rule cons_entries) (use lt in simp_all)
      next
        case False
        have ih: "length (fst (xCoords_loop t P n (i + 1) (c + 1) :: 's option list \<times> int))
             = n - (i + 1) \<and>
           (\<forall>k<n - (i + 1).
              fst (xCoords_loop t P n (i + 1) (c + 1) :: 's option list \<times> int) ! k = None \<or>
              fst (xCoords_loop t P n (i + 1) (c + 1) :: 's option list \<times> int) ! k
                = Some (xScalar (int (i + 1 + k))))"
          using "1.IH"(1) [OF lt p False] lt by simp
        have eq: "fst (xCoords_loop t P n i c :: 's option list \<times> int)
            = Some (xScalar (int i)) # fst (xCoords_loop t P n (i + 1) (c + 1))"
          using lt p False by (subst xCoords_loop.simps) (simp add: split_beta)
        show ?thesis
          unfolding eq by (rule cons_entries) (use ih lt in blast)+
      qed
    qed
  qed
qed

lemma xCoords_entries:
  fixes g :: "('s::field, 'p) suite"
  assumes "xCoords g t n P = Inr x"
  shows "length x = n" and "k < n \<Longrightarrow> x ! k = None \<or> x ! k = Some (xScalar (int k))"
proof -
  have x: "x = fst (xCoords_loop t P n 0 0 :: 's option list \<times> int)"
    using assms by (auto simp: xCoords_def split: prod.splits if_splits)
  from xCoords_loop_entries [of 0 n t P 0, where 's = 's]
  show "length x = n" and "k < n \<Longrightarrow> x ! k = None \<or> x ! k = Some (xScalar (int k))"
    by (simp_all add: x)
qed

lemma filter_mem_take_filter:
  "distinct xs \<Longrightarrow> filter (\<lambda>k. k \<in> set (take m (filter P xs))) xs = take m (filter P xs)"
proof (induction xs arbitrary: m)
  case Nil
  show ?case by simp
next
  case (Cons a xs)
  have notin: "a \<notin> set (take k (filter P xs))" for k
    using Cons.prems by (auto dest: in_set_takeD)
  show ?case
  proof (cases "P a")
    case False
    have "filter (\<lambda>k. k \<in> set (take m (filter P xs))) xs = take m (filter P xs)"
      using Cons by simp
    with False notin show ?thesis by simp
  next
    case True
    show ?thesis
    proof (cases m)
      case 0
      then show ?thesis by simp
    next
      case (Suc k)
      have "filter (\<lambda>j. j = a \<or> j \<in> set (take k (filter P xs))) xs
          = filter (\<lambda>j. j \<in> set (take k (filter P xs))) xs"
        using Cons.prems by (intro filter_cong) auto
      also have "\<dots> = take k (filter P xs)" using Cons by simp
      finally show ?thesis using True Suc by simp
    qed
  qed
qed

lemma xCoords_enough:
  fixes g :: "('s::field, 'p) suite"
  assumes t: "1 \<le> t" and enough: "t \<le> int (length (filter P [0..<n]))"
  shows "xCoords g t n P =
     Inr (map (\<lambda>k. if k \<in> set (take (nat t) (filter P [0..<n]))
                    then Some (xScalar (int k)) else None) [0..<n])"
proof -
  have "int (length (take (nat t) (filter P [0..<n]))) = t"
    using t enough by simp
  then show ?thesis
    using t by (simp add: xCoords_def xCoords_loop_char)
qed

lemma xCoords_short:
  fixes g :: "('s::field, 'p) suite"
  assumes t: "1 \<le> t" and short: "int (length (filter P [0..<n])) < t"
  shows "xCoords g t n P = (Inl ErrNotEnoughShares :: error + 's option list)"
proof -
  have "int (length (take (nat t) (filter P [0..<n]))) < t"
    using t short by simp
  then show ?thesis
    using t by (simp add: xCoords_def xCoords_loop_char [where 's = 's])
qed

lemma nonnil_filter:
  "filter (\<lambda>i. i < length shares \<and> shares ! i \<noteq> None) [0..<length shares]
 = filter (\<lambda>i. shares ! i \<noteq> None) [0..<length shares]"
  by (rule filter_cong) auto

subsection \<open>Reconstruction of the secret\<close>

lemma basis_loop_fold:
  "foldl (\<lambda>(num, den) j.
            case x ! j of
              None \<Rightarrow> (num, den)
            | Some xj \<Rightarrow> if j = i then (num, den) else (num * xj, den * (xj - xi)))
         (n0, d0) js
   = (n0 * (\<Prod>j\<leftarrow>filter (\<lambda>j. x ! j \<noteq> None \<and> j \<noteq> i) js. the (x ! j)),
      d0 * (\<Prod>j\<leftarrow>filter (\<lambda>j. x ! j \<noteq> None \<and> j \<noteq> i) js. the (x ! j) - xi))"
proof (induction js arbitrary: n0 d0)
  case Nil
  show ?case by simp
next
  case (Cons j js)
  show ?case
    by (cases "x ! j") (simp_all add: Cons mult.assoc)
qed

text \<open>
  With pairwise distinct x-coordinates no denominator of a Lagrange basis is zero, so that
  \<open>RecoverSecret\<close> never divides by zero.
\<close>

lemma prod_list_nonzero:
  "(\<And>j. j \<in> set js \<Longrightarrow> f j \<noteq> (0 :: 'a::field)) \<Longrightarrow> (\<Prod>j\<leftarrow>js. f j) \<noteq> 0"
  by (induction js) auto

lemma denominators_nonzero:
  fixes g :: "('s::field, 'p) suite"
  assumes xc: "xCoords g t n P = Inr x"
    and inj: "inj_on (\<lambda>i. xScalar (int i) :: 's) {0..<n}"
    and i: "i < n" "x ! i = Some xi"
  shows "snd (basis_loop x i xi v) \<noteq> 0"
proof -
  have len: "length x = n" by (rule xCoords_entries(1) [OF xc])
  have xi: "xi = xScalar (int i)"
    using xCoords_entries(2) [OF xc i(1)] i(2) by simp
  have "snd (basis_loop x i xi v)
      = (\<Prod>j\<leftarrow>filter (\<lambda>j. x ! j \<noteq> None \<and> j \<noteq> i) [0..<n]. the (x ! j) - xi)"
    by (simp add: basis_loop_def basis_loop_fold len)
  also have "\<dots> \<noteq> 0"
  proof (rule prod_list_nonzero)
    fix j assume "j \<in> set (filter (\<lambda>j. x ! j \<noteq> None \<and> j \<noteq> i) [0..<n])"
    then have j: "j < n" "x ! j \<noteq> None" "j \<noteq> i" by auto
    with xCoords_entries(2) [OF xc j(1)] have "the (x ! j) = xScalar (int j)" by auto
    moreover have "(xScalar (int j) :: 's) \<noteq> xScalar (int i)"
      using inj j i(1) by (auto dest: inj_onD)
    ultimately show "the (x ! j) - xi \<noteq> 0" by (simp add: xi)
  qed
  finally show ?thesis .
qed

lemma recover_loop_fold:
  assumes "\<And>i. i \<in> set is \<Longrightarrow> x ! i \<noteq> None \<Longrightarrow> shares ! i \<noteq> None"
  shows "foldl (\<lambda>acc i.
              case acc of
                Inl e \<Rightarrow> Inl e
              | Inr a \<Rightarrow>
                 (case x ! i of
                    None \<Rightarrow> Inr a
                  | Some xi \<Rightarrow>
                     (case shares ! i of
                        None \<Rightarrow> Inl Panic
                      | Some s \<Rightarrow>
                         (case basis_loop x i xi (PriShare_V s) of
                            (num, den) \<Rightarrow> Inr (a + num / den)))))
           (Inr a0) is
     = Inr (a0 + (\<Sum>i\<leftarrow>filter (\<lambda>i. x ! i \<noteq> None) is.
               fst (basis_loop x i (the (x ! i)) (PriShare_V (the (shares ! i)))) /
               snd (basis_loop x i (the (x ! i)) (PriShare_V (the (shares ! i))))))"
  using assms
proof (induction "is" arbitrary: a0)
  case Nil
  show ?case by simp
next
  case (Cons i "is")
  show ?case
  proof (cases "x ! i")
    case None
    with Cons show ?thesis by simp
  next
    case (Some xi)
    with Cons.prems [of i] obtain s where s: "shares ! i = Some s" by auto
    show ?thesis
      using Some s Cons.IH Cons.prems
      by (simp add: split_beta add.assoc)
  qed
qed

lemma prod_list_divide:
  "(\<Prod>j\<leftarrow>js. f j) / (\<Prod>j\<leftarrow>js. g j) = (\<Prod>j\<leftarrow>js. f j / (g j :: 'a::field))"
proof (induction js)
  case Nil
  show ?case by simp
next
  case (Cons a js)
  have "(\<Prod>j\<leftarrow>a # js. f j) / (\<Prod>j\<leftarrow>a # js. g j)
      = f a / g a * ((\<Prod>j\<leftarrow>js. f j) / (\<Prod>j\<leftarrow>js. g j))"
    by (simp only: list.map prod_list.Cons times_divide_times_eq)
  then show ?case by (simp only: Cons list.map prod_list.Cons)
qed

lemma RecoverSecret_interpolate:
  fixes g :: "('s::field, 'p) suite"
  assumes t: "1 \<le> t"
    and enough: "t \<le> int (length (filter (\<lambda>i. shares ! i \<noteq> None) [0..<length shares]))"
  shows "RecoverSecret g shares t = Inr (interpolate0 (first_nonnil (nat t) shares) shares)"
proof -
  define n where "n = length shares"
  define sel where "sel = first_nonnil (nat t) shares"
  define x :: "'s option list"
    where "x = map (\<lambda>k. if k \<in> set sel then Some (xScalar (int k)) else None) [0..<n]"
  have sel_eq: "sel = take (nat t)
      (filter (\<lambda>i. i < length shares \<and> shares ! i \<noteq> None) [0..<length shares])"
    by (simp only: sel_def first_nonnil_def nonnil_filter)
  have enough': "t \<le> int (length
      (filter (\<lambda>i. i < length shares \<and> shares ! i \<noteq> None) [0..<length shares]))"
    using enough by (simp only: nonnil_filter)
  have xc: "xCoords g t (length shares) (\<lambda>i. i < length shares \<and> shares ! i \<noteq> None) = Inr x"
    unfolding x_def sel_eq n_def by (rule xCoords_enough [OF t enough'])
  have len: "length x = n" by (simp add: x_def)
  have sel_sub: "set sel \<subseteq> {i. i < n \<and> shares ! i \<noteq> None}"
    by (auto simp: sel_def first_nonnil_def n_def dest: in_set_takeD)
  have xk: "x ! k = (if k \<in> set sel then Some (xScalar (int k)) else None)" if "k < n" for k
    using that by (simp add: x_def)
  have filt: "filter (\<lambda>i. x ! i \<noteq> None) [0..<n] = sel"
  proof -
    have "filter (\<lambda>i. x ! i \<noteq> None) [0..<n] = filter (\<lambda>i. i \<in> set sel) [0..<n]"
      by (rule filter_cong) (auto simp: xk)
    also have "\<dots> = sel"
      unfolding sel_def first_nonnil_def n_def
      by (rule filter_mem_take_filter) simp
    finally show ?thesis .
  qed
  have filt_i: "filter (\<lambda>j. x ! j \<noteq> None \<and> j \<noteq> i) [0..<n] = filter (\<lambda>j. j \<noteq> i) sel" for i
  proof -
    have "filter (\<lambda>j. x ! j \<noteq> None \<and> j \<noteq> i) [0..<n]
        = filter (\<lambda>j. j \<noteq> i) (filter (\<lambda>j. x ! j \<noteq> None) [0..<n])"
      by (simp add: conj_commute)
    then show ?thesis by (simp only: filt)
  qed
  have nopanic: "shares ! i \<noteq> None" if "i \<in> set [0..<length x]" "x ! i \<noteq> None" for i
    using that sel_sub by (auto simp: len xk split: if_splits)
  have summand: "fst (basis_loop x i (the (x ! i)) (PriShare_V (the (shares ! i)))) /
              snd (basis_loop x i (the (x ! i)) (PriShare_V (the (shares ! i))))
            = (case shares ! i of
                 None \<Rightarrow> 0
               | Some s \<Rightarrow> PriShare_V s *
                  (\<Prod>j\<leftarrow>filter (\<lambda>j. j \<noteq> i) sel.
                     xScalar (int j) / (xScalar (int j) - xScalar (int i))))"
    if i: "i \<in> set sel" for i
  proof -
    from i sel_sub obtain s where s: "shares ! i = Some s" and in': "i < n" by auto
    have xi: "the (x ! i) = xScalar (int i)" using i in' by (simp add: xk)
    have m1: "map (\<lambda>j. the (x ! j)) (filter (\<lambda>j. j \<noteq> i) sel)
            = map (\<lambda>j. xScalar (int j)) (filter (\<lambda>j. j \<noteq> i) sel)"
      using sel_sub by (intro map_cong refl) (auto simp: xk)
    have m2: "map (\<lambda>j. the (x ! j) - xScalar (int i)) (filter (\<lambda>j. j \<noteq> i) sel)
            = map (\<lambda>j. xScalar (int j) - xScalar (int i)) (filter (\<lambda>j. j \<noteq> i) sel)"
      using sel_sub by (intro map_cong refl) (auto simp: xk)
    have "basis_loop x i (xScalar (int i)) (PriShare_V s)
        = (PriShare_V s * (\<Prod>j\<leftarrow>filter (\<lambda>j. j \<noteq> i) sel. xScalar (int j)),
           (\<Prod>j\<leftarrow>filter (\<lambda>j. j \<noteq> i) sel. xScalar (int j) - xScalar (int i)))"
      unfolding basis_loop_def basis_loop_fold len filt_i m1 m2 by simp
    then show ?thesis
      by (simp add: s xi prod_list_divide [symmetric])
  qed
  have "recover_loop x shares
      = Inr (0 + (\<Sum>i\<leftarrow>filter (\<lambda>i. x ! i \<noteq> None) [0..<length x].
               fst (basis_loop x i (the (x ! i)) (PriShare_V (the (shares ! i)))) /
               snd (basis_loop x i (the (x ! i)) (PriShare_V (the (shares ! i))))))"
    unfolding recover_loop_def
    by (rule recover_loop_fold) (rule nopanic)
  also have "\<dots> = Inr (interpolate0 sel shares)"
    unfolding interpolate0_def len filt
    by (simp cong: map_cong add: summand)
  finally have r: "recover_loop x shares = Inr (interpolate0 sel shares)" .
  show ?thesis
    unfolding RecoverSecret_def xc by (simp add: r [unfolded sel_def])
qed

lemma recover_loop_fold_error:
  "foldl (\<lambda>acc i.
              case acc of
                Inl e \<Rightarrow> Inl e
              | Inr a \<Rightarrow>
                 (case x ! i of
                    None \<Rightarrow> Inr a
                  | Some xi \<Rightarrow>
                     (case shares ! i of
                        None \<Rightarrow> Inl Panic
                      | Some s \<Rightarrow>
                         (case basis_loop x i xi (PriShare_V s) of
                            (num, den) \<Rightarrow> Inr (a + num / den)))))
           acc is = Inl e \<Longrightarrow> acc = Inl e \<or> e = Panic"
proof (induction "is" arbitrary: acc)
  case Nil
  then show ?case by simp
next
  case (Cons i "is")
  from Cons.IH [OF Cons.prems [simplified]] show ?case
    by (auto split: sum.splits option.splits prod.splits)
qed

lemma recover_loop_error: "recover_loop x shares = Inl e \<Longrightarrow> e = Panic"
  unfolding recover_loop_def by (drule recover_loop_fold_error) simp

lemma RecoverSecret_insufficient:
  fixes g :: "('s::field, 'p) suite"
  shows "RecoverSecret g shares t = Inl ErrNotEnoughShares \<longleftrightarrow>
     int (length (filter (\<lambda>i. shares ! i \<noteq> None) [0..<length shares])) < t"
proof (cases "1 \<le> t")
  case True
  note t = this
  show ?thesis
  proof (cases "int (length (filter (\<lambda>i. shares ! i \<noteq> None) [0..<length shares])) < t")
    case True
    then have "int (length (filter (\<lambda>i. i < length shares \<and> shares ! i \<noteq> None)
        [0..<length shares])) < t"
      by (simp only: nonnil_filter)
    from xCoords_short [OF t this, of g] True show ?thesis
      unfolding RecoverSecret_def by simp
  next
    case False
    then have "t \<le> int (length (filter (\<lambda>i. shares ! i \<noteq> None) [0..<length shares]))"
      by simp
    from RecoverSecret_interpolate [OF t this, of g] False show ?thesis by simp
  qed
next
  case False
  then have t0: "t \<le> 0" by simp
  obtain x :: "'s option list" and c where xc:
    "xCoords_loop t (\<lambda>i. i < length shares \<and> shares ! i \<noteq> None) (length shares) 0 0 = (x, c)"
    by (cases "xCoords_loop t (\<lambda>i. i < length shares \<and> shares ! i \<noteq> None)
      (length shares) 0 0 :: 's option list \<times> int")
  have "0 \<le> c"
    using xCoords_loop_counter [of 0 t "\<lambda>i. i < length shares \<and> shares ! i \<noteq> None"
      "length shares" 0, where 's = 's] by (simp only: xc snd_conv)
  with t0 have "\<not> c < t" by simp
  then have "RecoverSecret g shares t = recover_loop x shares"
    unfolding RecoverSecret_def xCoords_def xc by simp
  with recover_loop_error [of x shares ErrNotEnoughShares]
  have ne: "RecoverSecret g shares t \<noteq> Inl ErrNotEnoughShares" by auto
  have "\<not> int (length (filter (\<lambda>i. shares ! i \<noteq> None) [0..<length shares])) < t"
    using t0 by linarith
  with ne show ?thesis by simp
qed

text \<open>
  For every share list and every threshold \<open>t\<close>, \<open>RecoverSecret\<close> returns the error "not
  enough shares" if and only if the list has fewer than \<open>t\<close> non-\<open>nil\<close> entries; and for
  every \<open>t \<ge> 1\<close>, when at least \<open>t\<close> non-\<open>nil\<close> entries are present, it succeeds with the
  Lagrange interpolation at 0 of exactly the first \<open>t\<close> non-\<open>nil\<close> entries in index order.
\<close>

lemma RecoverSecret_first_shares:
  fixes g :: "('s::field, 'p) suite"
  shows "(RecoverSecret g shares t = Inl ErrNotEnoughShares \<longleftrightarrow>
            int (length (filter (\<lambda>i. shares ! i \<noteq> None) [0..<length shares])) < t)
       \<and> (1 \<le> t \<and> t \<le> int (length (filter (\<lambda>i. shares ! i \<noteq> None) [0..<length shares])) \<longrightarrow>
            RecoverSecret g shares t = Inr (interpolate0 (first_nonnil (nat t) shares) shares))"
  using RecoverSecret_insufficient [of g shares t] RecoverSecret_interpolate [of t shares g]
  by blast

text \<open>
  Three entries of which two are shares: threshold 3 fails, threshold 2 interpolates from
  the indices 0 and 2 and gives 5.
\<close>

lemma RecoverSecret_first_shares_example:
  "RecoverSecret toy [Some \<lparr>PriShare_I = 0, PriShare_V = 8\<rparr>, None,
                      Some \<lparr>PriShare_I = 2, PriShare_V = 14\<rparr>] 3 = Inl ErrNotEnoughShares \<and>
   first_nonnil (nat 2) [Some \<lparr>PriShare_I = 0, PriShare_V = 8 :: rat\<rparr>, None,
                      Some \<lparr>PriShare_I = 2, PriShare_V = 14\<rparr>] = [0, 2] \<and>
   RecoverSecret toy [Some \<lparr>PriShare_I = 0, PriShare_V = 8\<rparr>, None,
                      Some \<lparr>PriShare_I = 2, PriShare_V = 14\<rparr>] 2
     = Inr (interpolate0 [0, 2] [Some \<lparr>PriShare_I = 0, PriShare_V = 8\<rparr>, None,
                      Some \<lparr>PriShare_I = 2, PriShare_V = 14\<rparr>]) \<and>
   interpolate0 [0, 2] [Some \<lparr>PriShare_I = 0, PriShare_V = 8\<rparr>, None,
                      Some \<lparr>PriShare_I = 2, PriShare_V = 14 :: rat\<rparr>] = 5"
proof -
  let ?sh = "[Some \<lparr>PriShare_I = 0, PriShare_V = 8 :: rat\<rparr>, None,
                      Some \<lparr>PriShare_I = 2, PriShare_V = 14\<rparr>]"
  have u: "[0..<3] = [0, 1, 2]" by (simp add: upt_rec)
  have x: "xScalar 0 = (1 :: rat)" "xScalar 2 = (3 :: rat)"
    by (simp_all add: xScalar_def wrap64_def)
  have c: "int (length (filter (\<lambda>i. ?sh ! i \<noteq> None) [0..<length ?sh])) = 2"
    by (simp add: u)
  have f: "first_nonnil (nat 2) ?sh = [0, 2]"
    by (simp add: first_nonnil_def u)
  have v: "interpolate0 [0, 2] ?sh = 5"
    by (simp add: interpolate0_def x)
  from RecoverSecret_first_shares [of toy ?sh 3] RecoverSecret_first_shares [of toy ?sh 2]
  show ?thesis
    by (simp only: c f v) simp
qed

text \<open>
  Claim C9, evaluated at threshold 0 on a list of one share. The claim asks for the
  interpolation from exactly the first \<open>t\<close> non-\<open>nil\<close> entries, here none of them, which is
  the empty sum 0; and \<open>xCoords\<close> is documented to return exactly \<open>t\<close> x-coordinates. It
  tests \<open>c >= t\<close> only after it has marked a share, so it marks one x-coordinate, and
  \<open>RecoverSecret\<close> returns that share's value 5. On the empty list the same threshold
  gives 0.
\<close>

theorem recover_secret_threshold_zero:
  "(0::int) \<le> int (length (filter (\<lambda>i. [Some \<lparr>PriShare_I = 0, PriShare_V = 5 :: rat\<rparr>] ! i \<noteq> None)
                     [0..<length [Some \<lparr>PriShare_I = 0, PriShare_V = 5 :: rat\<rparr>]])) \<and>
   xCoords toy 0 1 (\<lambda>i. True) = Inr [Some (1 :: rat)] \<and>
   RecoverSecret toy [Some \<lparr>PriShare_I = 0, PriShare_V = 5\<rparr>] 0 = Inr 5 \<and>
   first_nonnil (nat 0) [Some \<lparr>PriShare_I = 0, PriShare_V = 5 :: rat\<rparr>] = [] \<and>
   interpolate0 (first_nonnil (nat 0) [Some \<lparr>PriShare_I = 0, PriShare_V = 5 :: rat\<rparr>])
     [Some \<lparr>PriShare_I = 0, PriShare_V = 5\<rparr>] = 0 \<and>
   RecoverSecret toy [Some \<lparr>PriShare_I = 0, PriShare_V = 5\<rparr>] 0 \<noteq>
     Inr (interpolate0 (first_nonnil (nat 0) [Some \<lparr>PriShare_I = 0, PriShare_V = 5 :: rat\<rparr>])
            [Some \<lparr>PriShare_I = 0, PriShare_V = 5\<rparr>]) \<and>
   xCoords toy 0 0 (\<lambda>i. False) = Inr ([] :: rat option list) \<and>
   RecoverSecret toy [] 0 = Inr 0"
proof -
  have x: "xScalar 0 = (1 :: rat)" by (simp add: xScalar_def wrap64_def)
  have l: "xCoords_loop 0 P (Suc 0) 0 0 = ([Some (1 :: rat)], 1)" if "P 0" for P
    using that by (subst xCoords_loop.simps) (simp add: x)
  have e: "xCoords_loop 0 P 0 0 0 = ([] :: rat option list, 0)" for P
    by (subst xCoords_loop.simps) simp
  have r: "RecoverSecret toy [Some \<lparr>PriShare_I = 0, PriShare_V = 5\<rparr>] 0 = Inr 5"
    by (simp add: RecoverSecret_def xCoords_def l recover_loop_def basis_loop_def)
  have r0: "RecoverSecret toy [] 0 = Inr 0"
    by (simp add: RecoverSecret_def xCoords_def e recover_loop_def)
  show ?thesis
    by (simp add: r r0 xCoords_def l e first_nonnil_def interpolate0_def)
qed

lemma interpolate0_lagrange0:
  assumes d: "distinct sel"
    and sh: "\<And>i. i \<in> set sel \<Longrightarrow> shares ! i = Some \<lparr>PriShare_I = int i, PriShare_V = f i\<rparr>"
  shows "interpolate0 sel shares = lagrange0 (\<lambda>i. xScalar (int i)) (set sel) f"
proof -
  have inner: "(\<Prod>j\<leftarrow>filter (\<lambda>j. j \<noteq> i) sel. xScalar (int j) / (xScalar (int j) - xScalar (int i)))
      = (\<Prod>j\<in>set sel - {i}. xScalar (int j) / (xScalar (int j) - (xScalar (int i) :: 'a)))" for i
  proof -
    have st: "set (filter (\<lambda>j. j \<noteq> i) sel) = set sel - {i}" by auto
    have di: "distinct (filter (\<lambda>j. j \<noteq> i) sel)" using d by simp
    show ?thesis
      using prod.distinct_set_conv_list [OF di,
        of "\<lambda>j. xScalar (int j) / (xScalar (int j) - (xScalar (int i) :: 'a))"]
      by (simp only: st)
  qed
  have "interpolate0 sel shares
      = (\<Sum>i\<leftarrow>sel. f i * (\<Prod>j\<in>set sel - {i}. xScalar (int j) / (xScalar (int j) - xScalar (int i))))"
    unfolding interpolate0_def
    by (rule arg_cong [where f = sum_list], rule map_cong) (simp_all add: sh inner)
  also have "\<dots> = lagrange0 (\<lambda>i. xScalar (int i)) (set sel) f"
    unfolding lagrange0_def using d by (simp add: sum_list_distinct_conv_sum_set)
  finally show ?thesis .
qed

text \<open>
  Claim C1. Let \<open>p = NewPriPoly(g, t, s, rand)\<close> with \<open>2 \<le> t \<le> n\<close> and a secret \<open>s\<close>, and
  let \<open>shares\<close> be the list \<open>p.Shares(n)\<close> with some entries replaced by \<open>nil\<close> (those
  where \<open>keep\<close> is false), at least \<open>t\<close> entries being kept. Then
  \<open>RecoverSecret(g, shares, t)\<close> returns \<open>s\<close> and no error, and none of its divisions is by
  zero. The group enters through its scalars only: the x-coordinates \<open>1, ..., n\<close> of the
  \<open>n\<close> shares have to be pairwise distinct scalars, which is the case whenever the order of
  the scalar field exceeds \<open>n\<close>.
\<close>

theorem recover_shared_secret:
  fixes g :: "('s::field, 'p) suite" and s :: 's
  assumes t: "2 \<le> t" "t \<le> int n"
    and p: "NewPriPoly g t (Some s) rand = Inr (p, rand')"
    and all: "PriPoly_Shares p (int n) = Inr all"
    and shares: "shares = map (\<lambda>i. if keep i then Some (all ! i) else None) [0..<n]"
    and enough: "t \<le> int (length (filter keep [0..<n]))"
    and inj: "inj_on (\<lambda>i. xScalar (int i) :: 's) {0..<n}"
  shows "RecoverSecret g shares t = Inr s \<and>
         (\<forall>x i xi v.
            xCoords g t (length shares) (\<lambda>i. i < length shares \<and> shares ! i \<noteq> None) = Inr x \<and>
            i < length shares \<and> x ! i = Some xi \<longrightarrow> snd (basis_loop x i xi v) \<noteq> 0)"
proof (intro conjI allI impI)
  fix x :: "'s option list" and i xi v
  assume h: "xCoords g t (length shares) (\<lambda>i. i < length shares \<and> shares ! i \<noteq> None) = Inr x \<and>
            i < length shares \<and> x ! i = Some xi"
  have len: "length shares = n" by (simp add: shares)
  from h have xc: "xCoords g t (length shares)
      (\<lambda>i. i < length shares \<and> shares ! i \<noteq> None) = Inr x"
    and i: "i < length shares" "x ! i = Some xi" by blast+
  show "snd (basis_loop x i xi v) \<noteq> 0"
    by (rule denominators_nonzero [OF xc inj [folded len] i])
next
  define cs where "cs = PriPoly_coeffs p"
  define f where "f = (\<lambda>i::nat. foldr (\<lambda>c sv. sv * xScalar (int i) + c) cs (0::'s))"
  define sel where "sel = first_nonnil (nat t) shares"
  have cs: "length cs = nat t" "cs ! 0 = s" "cs \<noteq> []"
    using p t by (auto simp: NewPriPoly_def cs_def split: if_splits)
  have alls: "all = map (\<lambda>i. PriPoly_Eval p (int i)) [0..<n]"
    using all by (simp add: PriPoly_Shares_def)
  have len: "length shares = n" by (simp add: shares)
  have nonnil: "filter (\<lambda>i. shares ! i \<noteq> None) [0..<length shares] = filter keep [0..<n]"
    unfolding len by (rule filter_cong) (auto simp: shares)
  have sel_eq: "sel = take (nat t) (filter keep [0..<n])"
    by (simp only: sel_def first_nonnil_def nonnil)
  have d: "distinct sel" by (simp add: sel_eq)
  have sub: "set sel \<subseteq> {i. i < n \<and> keep i}"
    by (auto simp: sel_eq dest: in_set_takeD)
  have lsel: "length sel = nat t" using enough t by (simp add: sel_eq)
  have sh: "shares ! i = Some \<lparr>PriShare_I = int i, PriShare_V = f i\<rparr>" if "i \<in> set sel" for i
    using that sub by (auto simp: shares alls PriPoly_Eval_def f_def cs_def)
  have e1: "1 \<le> t" using t by simp
  have e2: "t \<le> int (length (filter (\<lambda>i. shares ! i \<noteq> None) [0..<length shares]))"
    unfolding nonnil by (rule enough)
  have "RecoverSecret g shares t = Inr (interpolate0 sel shares)"
    unfolding sel_def by (rule RecoverSecret_interpolate [OF e1 e2])
  also have "interpolate0 sel shares = lagrange0 (\<lambda>i. xScalar (int i)) (set sel) f"
    by (rule interpolate0_lagrange0 [OF d sh])
  also have "\<dots> = cs ! 0"
    unfolding f_def
  proof (rule lagrange0_poly)
    show "finite (set sel)" by simp
    show "inj_on (\<lambda>i. xScalar (int i) :: 's) (set sel)"
      by (rule inj_on_subset [OF inj]) (use sub in auto)
    show "length cs \<le> card (set sel)"
      using d lsel cs by (simp add: distinct_card)
    show "cs \<noteq> []" by (rule cs)
  qed
  finally show "RecoverSecret g shares t = Inr s" by (simp add: cs)
qed

text \<open>
  Claim C1, at a concrete input: \<open>f(x) = 5 + 3x\<close> over the rationals, three shares of
  which the middle one is dropped, threshold 2.
\<close>

theorem recover_shared_secret_witness:
  "(2::int) \<le> 2 \<and> (2::int) \<le> int 3 \<and>
   NewPriPoly toy 2 (Some 5) (\<lambda>k. 3) = Inr (\<lparr>PriPoly_g = toy, PriPoly_coeffs = [5, 3]\<rparr>, \<lambda>k. 3) \<and>
   PriPoly_Shares \<lparr>PriPoly_g = toy, PriPoly_coeffs = [5, 3]\<rparr> (int 3)
     = Inr [\<lparr>PriShare_I = 0, PriShare_V = 8\<rparr>, \<lparr>PriShare_I = 1, PriShare_V = 11\<rparr>,
            \<lparr>PriShare_I = 2, PriShare_V = 14\<rparr>] \<and>
   (2::int) \<le> int (length (filter (\<lambda>i. i \<noteq> 1) [0..<3])) \<and>
   inj_on (\<lambda>i. xScalar (int i) :: rat) {0..<3} \<and>
   RecoverSecret toy [Some \<lparr>PriShare_I = 0, PriShare_V = 8\<rparr>, None,
                      Some \<lparr>PriShare_I = 2, PriShare_V = 14\<rparr>] 2 = Inr 5"
proof -
  let ?p = "\<lparr>PriPoly_g = toy, PriPoly_coeffs = [5, 3 :: rat]\<rparr>"
  let ?all = "[\<lparr>PriShare_I = 0, PriShare_V = 8 :: rat\<rparr>, \<lparr>PriShare_I = 1, PriShare_V = 11\<rparr>,
            \<lparr>PriShare_I = 2, PriShare_V = 14\<rparr>]"
  have x: "xScalar 0 = (1 :: rat)" "xScalar 1 = (2 :: rat)" "xScalar 2 = (3 :: rat)"
    by (simp_all add: xScalar_def wrap64_def)
  have u: "[0..<3] = [0, 1, 2]" by (simp add: upt_rec)
  have p: "NewPriPoly toy 2 (Some 5) (\<lambda>k. 3) = Inr (?p, \<lambda>k. 3)"
    by (simp add: NewPriPoly_def)
  have a: "PriPoly_Shares ?p (int 3) = Inr ?all"
    by (simp add: PriPoly_Shares_def PriPoly_Eval_def u x)
  have s: "[Some \<lparr>PriShare_I = 0, PriShare_V = 8 :: rat\<rparr>, None, Some \<lparr>PriShare_I = 2, PriShare_V = 14\<rparr>]
      = map (\<lambda>i. if i \<noteq> 1 then Some (?all ! i) else None) [0..<3]"
    by (simp add: u)
  have e: "(2::int) \<le> int (length (filter (\<lambda>i. i \<noteq> 1) [0..<3]))"
    by (simp add: u)
  have i: "inj_on (\<lambda>i. xScalar (int i) :: rat) {0..<3}"
    by (rule xScalar_inj_rat) simp
  have t: "(2::int) \<le> 2" "(2::int) \<le> int 3" by simp_all
  from recover_shared_secret [OF t p a s e i] p a e i show ?thesis by simp
qed

subsection \<open>Commitments\<close>

lemma pubeval_commit:
  assumes "homomorphic g"
  shows "foldr (\<lambda>c pv. pmul g pv x + c) (map (\<lambda>c. pmul g B c) cs) 0
       = pmul g B (foldr (\<lambda>c sv. sv * x + c) cs 0)"
proof (induction cs)
  case Nil
  have "pmul g B 0 + pmul g B 0 = pmul g B 0"
    using assms unfolding homomorphic_def by (metis add.right_neutral)
  then show ?case by simp
next
  case (Cons c cs)
  then show ?case using assms unfolding homomorphic_def by simp
qed

text \<open>
  Claim C6. For every private polynomial \<open>p\<close> (of any threshold), every base point \<open>B\<close>
  (\<open>nil\<close> for the standard base) and every index \<open>i\<close>, the commitment polynomial
  \<open>p.Commit(B)\<close> accepts the share \<open>p.Eval(i)\<close>. \<open>Check(s)\<close> on any commitment polynomial
  holds if and only if its \<open>Eval(s.I).V\<close> equals \<open>s.V\<close> times its base point; on
  \<open>p.Commit(B)\<close> that is: if and only if \<open>s.V \<cdot> B\<close> equals \<open>p(s.I) \<cdot> B\<close>, so a share whose
  multiple of \<open>B\<close> differs from the one of the polynomial's value is refused. The group has
  to have the homomorphism properties of \<open>homomorphic\<close>.
\<close>

theorem commit_check:
  fixes p :: "('s::field, 'p::ab_group_add) PriPoly" and q :: "('s, 'p) PubPoly"
  assumes "homomorphic (PriPoly_g p)"
  shows "Check (Commit p B) (PriPoly_Eval p i) = True
       \<and> (Check q s \<longleftrightarrow>
            PubShare_V (PubPoly_Eval q (PriShare_I s)) =
              pmul (PubPoly_g q)
                (case PubPoly_b q of None \<Rightarrow> pbase (PubPoly_g q) | Some b \<Rightarrow> obj b)
                (PriShare_V s))
       \<and> (Check (Commit p B) s \<longleftrightarrow>
            pmul (PriPoly_g p) (case B of None \<Rightarrow> pbase (PriPoly_g p) | Some b \<Rightarrow> obj b)
              (PriShare_V s) =
            pmul (PriPoly_g p) (case B of None \<Rightarrow> pbase (PriPoly_g p) | Some b \<Rightarrow> obj b)
              (PriShare_V (PriPoly_Eval p (PriShare_I s))))"
proof (intro conjI)
  show "Check (Commit p B) (PriPoly_Eval p i) = True"
    using pubeval_commit [OF assms]
    by (simp add: Check_def Commit_def PriPoly_Eval_def PubPoly_Eval_def Mul_def)
  show "Check q s \<longleftrightarrow>
            PubShare_V (PubPoly_Eval q (PriShare_I s)) =
              pmul (PubPoly_g q)
                (case PubPoly_b q of None \<Rightarrow> pbase (PubPoly_g q) | Some b \<Rightarrow> obj b)
                (PriShare_V s)"
    by (cases "PubPoly_b q") (simp_all add: Check_def Mul_def)
  show "Check (Commit p B) s \<longleftrightarrow>
            pmul (PriPoly_g p) (case B of None \<Rightarrow> pbase (PriPoly_g p) | Some b \<Rightarrow> obj b)
              (PriShare_V s) =
            pmul (PriPoly_g p) (case B of None \<Rightarrow> pbase (PriPoly_g p) | Some b \<Rightarrow> obj b)
              (PriShare_V (PriPoly_Eval p (PriShare_I s)))"
    using pubeval_commit [OF assms]
    by (cases B) (auto simp add: Check_def Commit_def PriPoly_Eval_def PubPoly_Eval_def Mul_def)
qed

text \<open>
  Claim C6, at a concrete input: \<open>f(x) = 5 + 3x\<close> committed on the base point 2 and
  checked at index 4, where the share is 20 and the commitment polynomial gives 40. The
  share with the value 21 at index 4 is refused, and so is, on the standard base, the value
  20 at index 3.
\<close>

theorem commit_check_witness:
  "homomorphic (PriPoly_g \<lparr>PriPoly_g = toy, PriPoly_coeffs = [5, 3]\<rparr>) \<and>
   Check (Commit \<lparr>PriPoly_g = toy, PriPoly_coeffs = [5, 3]\<rparr> (Some (Ptr 0 2)))
         (PriPoly_Eval \<lparr>PriPoly_g = toy, PriPoly_coeffs = [5, 3]\<rparr> 4) = True \<and>
   PubPoly_commits (Commit \<lparr>PriPoly_g = toy, PriPoly_coeffs = [5, 3]\<rparr> (Some (Ptr 0 2))) = [10, 6] \<and>
   PriPoly_Eval \<lparr>PriPoly_g = toy, PriPoly_coeffs = [5, 3]\<rparr> 4 = \<lparr>PriShare_I = 4, PriShare_V = 20\<rparr> \<and>
   PubShare_V (PubPoly_Eval (Commit \<lparr>PriPoly_g = toy, PriPoly_coeffs = [5, 3]\<rparr> (Some (Ptr 0 2))) 4)
     = 40 \<and>
   Check (Commit \<lparr>PriPoly_g = toy, PriPoly_coeffs = [5, 3]\<rparr> (Some (Ptr 0 2)))
         \<lparr>PriShare_I = 4, PriShare_V = 21\<rparr> = False \<and>
   Check (Commit \<lparr>PriPoly_g = toy, PriPoly_coeffs = [5, 3]\<rparr> None)
         \<lparr>PriShare_I = 3, PriShare_V = 20\<rparr> = False"
proof -
  let ?p = "\<lparr>PriPoly_g = toy, PriPoly_coeffs = [5, 3 :: rat]\<rparr>"
  have h: "homomorphic (PriPoly_g ?p)"
    by (simp add: toy_def homomorphic_toy)
  have x: "xScalar 4 = (5 :: rat)" "xScalar 3 = (4 :: rat)" by (simp_all add: xScalar_def wrap64_def)
  from commit_check [OF h, of "Some (Ptr 0 2)" 4 "Commit ?p (Some (Ptr 0 2))"
      "\<lparr>PriShare_I = 4, PriShare_V = 21\<rparr>"]
    commit_check [OF h, of None 4 "Commit ?p None" "\<lparr>PriShare_I = 3, PriShare_V = 20\<rparr>"]
    h show ?thesis
    by (simp add: Commit_def PriPoly_Eval_def PubPoly_Eval_def Mul_def toy_def x)
qed

subsection \<open>The dealer\<close>

lemma validT_iff:
  "validT t verifiers \<longleftrightarrow> 2 \<le> t \<and> t \<le> int (length verifiers) \<and> t < 2 ^ 32"
proof -
  have "uint (word_of_int t :: uint32) = t \<longleftrightarrow> 0 \<le> t \<and> t < 2 ^ 32"
    by (auto simp add: uint_word_of_int zmod_trivial_iff)
  then show ?thesis unfolding validT_def by auto
qed

lemma zip_commits:
  "map (\<lambda>(c, d). c + d) (zip (map F xs) (map G ys)) = map (\<lambda>(a, b). F a + G b) (zip xs ys)"
  by (simp add: zip_map_map case_prod_beta)

lemma NewDealer_valid:
  fixes suite :: "('s::field, 'p::ab_group_add) suite"
  assumes v: "validT t verifiers"
  shows "\<exists>d f g r1 r2.
           NewDealer suite longterm secret verifiers r t alloc = Inr d \<and>
           NewPriPoly suite t secret r = Inr (f, r1) \<and>
           NewPriPoly suite t None r1 = Inr (g, r2) \<and>
           d_t d = t \<and>
           d_secretCommits d = map (\<lambda>c. pmul suite (pbase suite) c) (PriPoly_coeffs f) \<and>
           d_sessionID d = sessionID suite (pmul suite (pbase suite) longterm) verifiers
             (map (\<lambda>(a, b). pmul suite (pbase suite) a + pmul suite (deriveH suite verifiers) b)
                  (zip (PriPoly_coeffs f) (PriPoly_coeffs g))) t \<and>
           d_aggregator d = Some (newAggregator suite (pmul suite (pbase suite) longterm) verifiers
             (map (\<lambda>(a, b). pmul suite (pbase suite) a + pmul suite (deriveH suite verifiers) b)
                  (zip (PriPoly_coeffs f) (PriPoly_coeffs g))) t (d_sessionID d)) \<and>
           d_deals d =
             map (\<lambda>i. \<lparr>Deal_SessionID = d_sessionID d,
                       Deal_SecShare = PriPoly_Eval f (int i),
                       Deal_RndShare = PriPoly_Eval g (int i),
                       Deal_T = word_of_int t,
                       Deal_Commitments =
                         map (\<lambda>(a, b). pmul suite (pbase suite) a + pmul suite (deriveH suite verifiers) b)
                           (zip (PriPoly_coeffs f) (PriPoly_coeffs g))\<rparr>)
                 [0..<length verifiers]"
proof -
  from v have t: "\<not> t \<le> 0" by (simp add: validT_def)
  obtain f r1 where f: "NewPriPoly suite t secret r = Inr (f, r1)"
    using t by (cases secret) (simp_all add: NewPriPoly_def)
  obtain g r2 where g: "NewPriPoly suite t None r1 = Inr (g, r2)"
    using t by (simp add: NewPriPoly_def)
  have lf: "length (PriPoly_coeffs f) = nat t"
    using f t by (cases secret) (auto simp: NewPriPoly_def)
  have lg: "length (PriPoly_coeffs g) = nat t"
    using g t by (auto simp: NewPriPoly_def)
  have gf: "PriPoly_g f = suite" using f t by (cases secret) (auto simp: NewPriPoly_def)
  have gg: "PriPoly_g g = suite" using g t by (auto simp: NewPriPoly_def)
  show ?thesis
    using v
    by (simp add: NewDealer_def f g Let_def PubPoly_Add_v0_def Commit_def PubPoly_Threshold_def
        lf lg gf gg Mul_def zip_commits)
qed

text \<open>
  Claim C2. \<open>NewDealer\<close> returns a dealer and no error for every threshold \<open>t\<close> with
  \<open>2 \<le> t \<le> len(verifiers)\<close> that fits 32 bits: the two polynomials \<open>f\<close> and \<open>g\<close> of
  threshold \<open>t\<close> are drawn, \<open>F\<close> is committed on the standard base and \<open>G\<close> on \<open>H\<close>, the
  sum \<open>C = F + G\<close> is computed coefficient by coefficient, and the session identifier and
  every deal are built on the commitments of \<open>C\<close>. For every other \<open>t\<close> it returns the
  invalid-threshold error. The sum is the \<open>Add\<close> of \<open>PubPoly_Add_v0\<close>.
\<close>

theorem new_dealer_threshold:
  fixes suite :: "('s::field, 'p::ab_group_add) suite"
  shows "(2 \<le> t \<and> t \<le> int (length verifiers) \<and> t < 2 ^ 32 \<longrightarrow>
           (\<exists>d f g r1 r2.
              NewDealer suite longterm secret verifiers r t alloc = Inr d \<and>
              NewPriPoly suite t secret r = Inr (f, r1) \<and>
              NewPriPoly suite t None r1 = Inr (g, r2) \<and>
              d_t d = t \<and>
              d_secretCommits d = map (\<lambda>c. pmul suite (pbase suite) c) (PriPoly_coeffs f) \<and>
              d_sessionID d = sessionID suite (pmul suite (pbase suite) longterm) verifiers
                (map (\<lambda>(a, b). pmul suite (pbase suite) a + pmul suite (deriveH suite verifiers) b)
                     (zip (PriPoly_coeffs f) (PriPoly_coeffs g))) t \<and>
              d_aggregator d = Some (newAggregator suite (pmul suite (pbase suite) longterm) verifiers
                (map (\<lambda>(a, b). pmul suite (pbase suite) a + pmul suite (deriveH suite verifiers) b)
                     (zip (PriPoly_coeffs f) (PriPoly_coeffs g))) t (d_sessionID d)) \<and>
              d_deals d =
                map (\<lambda>i. \<lparr>Deal_SessionID = d_sessionID d,
                          Deal_SecShare = PriPoly_Eval f (int i),
                          Deal_RndShare = PriPoly_Eval g (int i),
                          Deal_T = word_of_int t,
                          Deal_Commitments =
                            map (\<lambda>(a, b). pmul suite (pbase suite) a +
                                          pmul suite (deriveH suite verifiers) b)
                              (zip (PriPoly_coeffs f) (PriPoly_coeffs g))\<rparr>)
                    [0..<length verifiers]))
       \<and> (\<not> (2 \<le> t \<and> t \<le> int (length verifiers) \<and> t < 2 ^ 32) \<longrightarrow>
            NewDealer suite longterm secret verifiers r t alloc = Inl ErrDealerInvalidT)"
proof (intro conjI impI)
  assume "2 \<le> t \<and> t \<le> int (length verifiers) \<and> t < 2 ^ 32"
  then have "validT t verifiers" by (simp only: validT_iff)
  then show "\<exists>d f g r1 r2.
              NewDealer suite longterm secret verifiers r t alloc = Inr d \<and>
              NewPriPoly suite t secret r = Inr (f, r1) \<and>
              NewPriPoly suite t None r1 = Inr (g, r2) \<and>
              d_t d = t \<and>
              d_secretCommits d = map (\<lambda>c. pmul suite (pbase suite) c) (PriPoly_coeffs f) \<and>
              d_sessionID d = sessionID suite (pmul suite (pbase suite) longterm) verifiers
                (map (\<lambda>(a, b). pmul suite (pbase suite) a + pmul suite (deriveH suite verifiers) b)
                     (zip (PriPoly_coeffs f) (PriPoly_coeffs g))) t \<and>
              d_aggregator d = Some (newAggregator suite (pmul suite (pbase suite) longterm) verifiers
                (map (\<lambda>(a, b). pmul suite (pbase suite) a + pmul suite (deriveH suite verifiers) b)
                     (zip (PriPoly_coeffs f) (PriPoly_coeffs g))) t (d_sessionID d)) \<and>
              d_deals d =
                map (\<lambda>i. \<lparr>Deal_SessionID = d_sessionID d,
                          Deal_SecShare = PriPoly_Eval f (int i),
                          Deal_RndShare = PriPoly_Eval g (int i),
                          Deal_T = word_of_int t,
                          Deal_Commitments =
                            map (\<lambda>(a, b). pmul suite (pbase suite) a +
                                          pmul suite (deriveH suite verifiers) b)
                              (zip (PriPoly_coeffs f) (PriPoly_coeffs g))\<rparr>)
                    [0..<length verifiers]"
    by (rule NewDealer_valid)
next
  assume "\<not> (2 \<le> t \<and> t \<le> int (length verifiers) \<and> t < 2 ^ 32)"
  then have "\<not> validT t verifiers" by (simp add: validT_iff)
  then show "NewDealer suite longterm secret verifiers r t alloc = Inl ErrDealerInvalidT"
    by (simp add: NewDealer_def)
qed

text \<open>
  Claim C2, at concrete inputs: two verifiers, \<open>f(x) = 5 + x\<close>, \<open>g(x) = 1 + x\<close> and
  \<open>H = 2\<close>. Threshold 2 gives the commitments \<open>[5 + 2, 1 + 2]\<close>; the thresholds 1, 3 and
  \<open>2\<^sup>3\<^sup>2 + 2\<close> are refused.
\<close>

theorem new_dealer_threshold_witness:
  "(2::int) \<le> 2 \<and> (2::int) \<le> int (length [3, 4 :: rat]) \<and> (2::int) < 2 ^ 32 \<and>
   (\<exists>d. NewDealer toy 3 (Some 5) [3, 4] (\<lambda>k. 1) 2 0 = Inr d \<and>
        d_t d = 2 \<and> d_secretCommits d = [5, 1] \<and>
        d_sessionID d = [3, 3, 4, 7, 3, 2, 0, 0, 0] \<and>
        map_option agg_commits (d_aggregator d) = Some [7, 3] \<and>
        map_option agg_sid (d_aggregator d) = Some [3, 3, 4, 7, 3, 2, 0, 0, 0] \<and>
        map Deal_Commitments (d_deals d) = [[7, 3], [7, 3]] \<and>
        map Deal_SecShare (d_deals d) =
          [\<lparr>PriShare_I = 0, PriShare_V = 6\<rparr>, \<lparr>PriShare_I = 1, PriShare_V = 7\<rparr>] \<and>
        map Deal_RndShare (d_deals d) =
          [\<lparr>PriShare_I = 0, PriShare_V = 2\<rparr>, \<lparr>PriShare_I = 1, PriShare_V = 3\<rparr>]) \<and>
   NewDealer toy 3 (Some 5) [3, 4] (\<lambda>k. 1) 1 0 = Inl ErrDealerInvalidT \<and>
   NewDealer toy 3 (Some 5) [3, 4] (\<lambda>k. 1) 3 0 = Inl ErrDealerInvalidT \<and>
   NewDealer toy 3 (Some 5) [3, 4] (\<lambda>k. 1) (2 ^ 32 + 2) 0 = Inl ErrDealerInvalidT"
proof -
  have x: "xScalar 0 = (1 :: rat)" "xScalar 1 = (2 :: rat)"
    by (simp_all add: xScalar_def wrap64_def)
  have u: "[0..<2] = [0, 1]" by (simp add: upt_rec)
  have n: "NewPriPoly toy 2 (Some 5) (\<lambda>k. 1) = Inr (\<lparr>PriPoly_g = toy, PriPoly_coeffs = [5, 1]\<rparr>, \<lambda>k. 1)"
    "NewPriPoly toy 2 None (\<lambda>k. 1) = Inr (\<lparr>PriPoly_g = toy, PriPoly_coeffs = [1, 1]\<rparr>, \<lambda>k. 1)"
    by (simp_all add: NewPriPoly_def u)
  have h: "deriveH toy [3, 4] = 2" by (simp add: deriveH_def toy_def)
  have s: "sessionID toy 3 [3, 4] [7, 3] 2 = [3, 3, 4, 7, 3, 2, 0, 0, 0]"
    by (simp add: sessionID_def le32_2 toy_def)
  have p: "pbase toy = 1" "pmul toy = (\<lambda>P s. P * s)" by (simp_all add: toy_def)
  from new_dealer_threshold [of 2 "[3, 4]" toy 3 "Some 5" "\<lambda>k. 1" 0]
  have a: "\<exists>d. NewDealer toy 3 (Some 5) [3, 4] (\<lambda>k. 1) 2 0 = Inr d \<and>
        d_t d = 2 \<and> d_secretCommits d = [5, 1] \<and>
        d_sessionID d = [3, 3, 4, 7, 3, 2, 0, 0, 0] \<and>
        map_option agg_commits (d_aggregator d) = Some [7, 3] \<and>
        map_option agg_sid (d_aggregator d) = Some [3, 3, 4, 7, 3, 2, 0, 0, 0] \<and>
        map Deal_Commitments (d_deals d) = [[7, 3], [7, 3]] \<and>
        map Deal_SecShare (d_deals d) =
          [\<lparr>PriShare_I = 0, PriShare_V = 6\<rparr>, \<lparr>PriShare_I = 1, PriShare_V = 7\<rparr>] \<and>
        map Deal_RndShare (d_deals d) =
          [\<lparr>PriShare_I = 0, PriShare_V = 2\<rparr>, \<lparr>PriShare_I = 1, PriShare_V = 3\<rparr>]"
    by (auto simp add: n h p s u PriPoly_Eval_def x newAggregator_def)
  from new_dealer_threshold [of 1 "[3, 4]" toy 3 "Some 5" "\<lambda>k. 1" 0]
  have b: "NewDealer toy 3 (Some 5) [3, 4] (\<lambda>k. 1) 1 0 = Inl ErrDealerInvalidT" by simp
  from new_dealer_threshold [of 3 "[3, 4]" toy 3 "Some 5" "\<lambda>k. 1" 0]
  have c: "NewDealer toy 3 (Some 5) [3, 4] (\<lambda>k. 1) 3 0 = Inl ErrDealerInvalidT" by simp
  from new_dealer_threshold [of "2 ^ 32 + 2" "[3, 4]" toy 3 "Some 5" "\<lambda>k. 1" 0]
  have d: "NewDealer toy 3 (Some 5) [3, 4] (\<lambda>k. 1) (2 ^ 32 + 2) 0 = Inl ErrDealerInvalidT" by simp
  from a b c d show ?thesis by simp
qed

subsection \<open>What the operations of the aggregator leave unchanged\<close>

lemma VerifyDeal_frame:
  "agg_responses (snd (VerifyDeal a d i)) = agg_responses a"
  "agg_verifiers (snd (VerifyDeal a d i)) = agg_verifiers a"
  "agg_badDealer (snd (VerifyDeal a d i)) = agg_badDealer a"
  "agg_t (snd (VerifyDeal a d i)) = agg_t a"
  by (simp_all add: VerifyDeal_def Let_def)

lemma VerifyDeal_result:
  assumes "VerifyDeal a d i = (err, a1)"
  shows "agg_responses a1 = agg_responses a" "agg_verifiers a1 = agg_verifiers a"
    "agg_badDealer a1 = agg_badDealer a" "agg_t a1 = agg_t a"
  using VerifyDeal_frame [of a d i] by (simp_all add: assms)

lemma addResponse_frame:
  "agg_verifiers (snd (addResponse a r)) = agg_verifiers a"
  "agg_badDealer (snd (addResponse a r)) = agg_badDealer a"
  "agg_t (snd (addResponse a r)) = agg_t a"
  by (simp_all add: addResponse_def split: option.splits)

lemma addResponse_result:
  assumes "addResponse a r = (err, a1)"
  shows "agg_verifiers a1 = agg_verifiers a" "agg_badDealer a1 = agg_badDealer a" "agg_t a1 = agg_t a"
  using addResponse_frame [of a r] by (simp_all add: assms)

lemma verifyResponse_frame:
  "agg_verifiers (snd (verifyResponse a r)) = agg_verifiers a"
  "agg_badDealer (snd (verifyResponse a r)) = agg_badDealer a"
  "agg_t (snd (verifyResponse a r)) = agg_t a"
  by (simp_all add: verifyResponse_def addResponse_frame split: option.splits)

lemma verifyJustification_frame:
  "agg_verifiers (snd (verifyJustification a j)) = agg_verifiers a"
  "agg_t (snd (verifyJustification a j)) = agg_t a"
  using VerifyDeal_frame [of a "Justification_Deal j" False]
  by (auto simp: verifyJustification_def split: option.splits prod.splits)

lemma verifyJustification_badDealer:
  "agg_badDealer a \<Longrightarrow> agg_badDealer (snd (verifyJustification a j))"
  using VerifyDeal_frame [of a "Justification_Deal j" False]
  by (auto simp: verifyJustification_def split: option.splits prod.splits)

lemma approve_keys: "map fst (approve i rs) = map fst rs"
  by (induction rs) (auto simp: approve_def)

lemma map_of_approve:
  "map_of (approve i rs) k =
     (if k = i then map_option (\<lambda>r. r\<lparr>Response_Approved := True\<rparr>) (map_of rs k)
      else map_of rs k)"
  by (induction rs) (auto simp: approve_def)

lemma addResponse_responses:
  "agg_responses (snd (addResponse a r)) = agg_responses a \<or>
   (agg_responses (snd (addResponse a r)) = agg_responses a @ [(Response_Index r, r)] \<and>
    map_of (agg_responses a) (Response_Index r) = None \<and>
    unat (Response_Index r) < length (agg_verifiers a))"
  by (auto simp: addResponse_def findPub_def split: option.splits if_splits)

lemma verifyResponse_responses:
  "agg_responses (snd (verifyResponse a r)) = agg_responses a \<or>
   (agg_responses (snd (verifyResponse a r)) = agg_responses a @ [(Response_Index r, r)] \<and>
    map_of (agg_responses a) (Response_Index r) = None \<and>
    unat (Response_Index r) < length (agg_verifiers a))"
  using addResponse_responses [of a r]
  by (auto simp: verifyResponse_def split: option.splits)

lemma verifyJustification_responses:
  "agg_responses (snd (verifyJustification a j)) = agg_responses a \<or>
   agg_responses (snd (verifyJustification a j)) = approve (Justification_Index j) (agg_responses a)"
  using VerifyDeal_frame [of a "Justification_Deal j" False]
  by (auto simp: verifyJustification_def split: option.splits prod.splits)

lemma reachable_inv:
  "agg_reachable a \<Longrightarrow>
     distinct (map fst (agg_responses a)) \<and>
     (\<forall>k \<in> set (map fst (agg_responses a)). unat k < length (agg_verifiers a))"
proof (induction rule: agg_reachable.induct)
  case (reach_new suite dealer verifiers commitments t sid)
  show ?case by (simp add: newAggregator_def)
next
  case (reach_deal a d inclusion)
  then show ?case by (simp add: VerifyDeal_frame)
next
  case (reach_response a r)
  with verifyResponse_responses [of a r] show ?case
    by (auto simp: verifyResponse_frame map_of_eq_None_iff)
next
  case (reach_justification a j)
  have keys: "map fst (agg_responses (snd (verifyJustification a j))) = map fst (agg_responses a)"
    using verifyJustification_responses [of a j] by (auto simp: approve_keys)
  show ?case
    unfolding keys verifyJustification_frame by (rule reach_justification.IH)
next
  case (reach_add a r)
  with addResponse_responses [of a r] show ?case
    by (auto simp: addResponse_frame map_of_eq_None_iff)
qed

lemma reachable_findPub:
  assumes "agg_reachable a" "stored a k = Some r"
  shows "findPub (agg_verifiers a) k = Some (agg_verifiers a ! unat k)"
proof -
  from assms(2) have "k \<in> set (map fst (agg_responses a))"
    unfolding stored_def by (metis map_of_eq_None_iff option.distinct(1) set_map)
  with reachable_inv [OF assms(1)] show ?thesis by (auto simp: findPub_def)
qed

lemma count_stored:
  "distinct (map fst al) \<Longrightarrow>
     length (filter (\<lambda>(k, r). P r) al) = card {k. \<exists>r. map_of al k = Some r \<and> P r}"
proof (induction al)
  case Nil
  show ?case by simp
next
  case (Cons kr al)
  obtain k r where kr: "kr = (k, r)" by (cases kr)
  from Cons.prems kr have knew: "k \<notin> fst ` set al" and d: "distinct (map fst al)" by auto
  then have none: "map_of al k = None" by (simp add: map_of_eq_None_iff)
  have fin: "finite {k'. \<exists>r'. map_of al k' = Some r' \<and> P r'}"
    by (rule finite_subset [of _ "dom (map_of al)"]) (auto simp: finite_dom_map_of)
  have notin: "k \<notin> {k'. \<exists>r'. map_of al k' = Some r' \<and> P r'}" using none by simp
  have set_eq: "{k'. \<exists>r'. map_of (kr # al) k' = Some r' \<and> P r'}
      = (if P r then insert k {k'. \<exists>r'. map_of al k' = Some r' \<and> P r'}
         else {k'. \<exists>r'. map_of al k' = Some r' \<and> P r'})"
    using none by (auto simp: kr)
  show ?case
  proof (cases "P r")
    case True
    then show ?thesis
      using Cons.IH [OF d] fin notin by (simp only: set_eq) (simp add: kr)
  next
    case False
    then show ?thesis
      using Cons.IH [OF d] by (simp only: set_eq) (simp add: kr)
  qed
qed

lemma reachable_counts:
  assumes "agg_reachable a"
  shows "int (length (filter (\<lambda>(k, r). Response_Approved r) (agg_responses a))) = int (approvals a)"
    and "int (length (filter (\<lambda>(k, r). \<not> Response_Approved r) (agg_responses a))) = int (complaints a)"
  using reachable_inv [OF assms]
  by (simp_all add: approvals_def complaints_def stored_def count_stored)

subsection \<open>Concrete states\<close>

lemma toy_agg_fields:
  "agg_suite toy_agg = toy" "agg_verifiers toy_agg = [3, 4]" "agg_responses toy_agg = []"
  "agg_sid toy_agg = toy_sid" "agg_deal toy_agg = None" "agg_t toy_agg = 2"
  "agg_badDealer toy_agg = False"
  by (simp_all add: toy_agg_def newAggregator_def)

lemma complained_eq:
  "complained = toy_agg\<lparr>agg_responses := [(0, toy_response 0 False)]\<rparr>"
  by (simp add: complained_def addResponse_def findPub_def toy_agg_fields toy_response_def)

lemma complained_fields:
  "agg_suite complained = toy" "agg_verifiers complained = [3, 4]"
  "agg_responses complained = [(0, toy_response 0 False)]"
  "agg_sid complained = toy_sid" "agg_deal complained = None" "agg_t complained = 2"
  "agg_badDealer complained = False"
  by (simp_all add: complained_eq toy_agg_fields)

lemma complained_reachable: "agg_reachable complained"
  unfolding complained_def toy_agg_def by (intro agg_reachable.intros)

lemma VerifyDeal_bad:
  "VerifyDeal complained (bad_deal toy_sid) False =
     (Some ErrShareDoesNotVerify,
      complained\<lparr>agg_commits := [7, 5], agg_sid := toy_sid, agg_deal := Some (bad_deal toy_sid)\<rparr>)"
  using validT_toy
  by (simp add: VerifyDeal_def complained_eq toy_agg_fields bad_deal_def good_deal_def Let_def
      Mul_def deriveH_def toy_def NewPubPoly_def PubPoly_Eval_def xScalar_0)

lemma VerifyDeal_first_good:
  "VerifyDeal complained (good_deal toy_sid) False =
     (None, complained\<lparr>agg_commits := [7, 5], agg_sid := toy_sid,
                        agg_deal := Some (good_deal toy_sid)\<rparr>)"
  using validT_toy
  by (simp add: VerifyDeal_def complained_fields good_deal_def Let_def
      Mul_def deriveH_def toy_def NewPubPoly_def PubPoly_Eval_def xScalar_0)

lemma latched_eq:
  "latched = complained\<lparr>agg_commits := [7, 5], agg_sid := toy_sid,
     agg_deal := Some (bad_deal toy_sid), agg_badDealer := True\<rparr>"
  by (simp add: latched_def verifyJustification_def toy_justification_def findPub_def
      complained_fields toy_response_def VerifyDeal_bad)

lemma latched_fields:
  "agg_suite latched = toy" "agg_verifiers latched = [3, 4]"
  "agg_responses latched = [(0, toy_response 0 False)]"
  "agg_sid latched = toy_sid" "agg_deal latched = Some (bad_deal toy_sid)" "agg_t latched = 2"
  "agg_badDealer latched = True"
  by (simp_all add: latched_eq complained_fields)

lemma VerifyDeal_good:
  "VerifyDeal latched (good_deal toy_sid) False = (None, latched)"
  using validT_toy
  by (simp add: VerifyDeal_def latched_fields good_deal_def Let_def
      Mul_def deriveH_def toy_def NewPubPoly_def PubPoly_Eval_def xScalar_0)

lemma justified_eq:
  "justified = latched\<lparr>agg_responses := [(0, toy_response 0 True)]\<rparr>"
  by (simp add: justified_def verifyJustification_def toy_justification_def findPub_def
      latched_fields toy_response_def VerifyDeal_good approve_def)

lemma both_approved_eq:
  "both_approved = latched\<lparr>agg_responses := [(0, toy_response 0 True), (1, toy_response 1 True)]\<rparr>"
  by (simp add: both_approved_def addResponse_def findPub_def justified_eq latched_fields
      toy_response_def)

lemma both_approved_reachable: "agg_reachable both_approved"
  unfolding both_approved_def justified_def latched_def complained_def toy_agg_def
  by (intro agg_reachable.intros)

lemma certified_eq:
  "certified = toy_agg\<lparr>agg_responses := [(0, toy_response 0 True), (1, toy_response 1 True)]\<rparr>"
  by (simp add: certified_def addResponse_def findPub_def toy_agg_fields toy_response_def)

lemma certified_reachable: "agg_reachable certified"
  unfolding certified_def toy_agg_def by (intro agg_reachable.intros)

lemma NewVerifier_toy: "NewVerifier (toy_suite dec) 3 9 [3, 4] = Inr (toy_verifier (toy_suite dec) None)"
  by (simp add: NewVerifier_def Mul_def toy_verifier_def hkdf_context_def upt_rec)

lemma decrypt_toy:
  "decryptDeal (toy_verifier (toy_suite (\<lambda>b. Some d)) None) toy_encrypted = Inr d"
  by (simp add: decryptDeal_def toy_verifier_def toy_encrypted_def)

lemma VerifyDeal_new_good:
  "VerifyDeal (newAggregator (toy_suite dec) 9 [3, 4] [7, 5] 2 sid) (good_deal sid) True =
     (None, (newAggregator (toy_suite dec) 9 [3, 4] [7, 5] 2 sid)
              \<lparr>agg_deal := Some (good_deal sid)\<rparr>)"
  using validT_toy
  by (simp add: VerifyDeal_def newAggregator_def good_deal_def Let_def
      Mul_def deriveH_def NewPubPoly_def PubPoly_Eval_def xScalar_0)

subsection \<open>Certification\<close>

text \<open>
  Claim C4, amended. In every reachable aggregator state with threshold \<open>t\<close>,
  \<open>DealCertified\<close> returns true if and only if at least \<open>t\<close> stored responses are
  approvals, fewer than \<open>t\<close> are complaints, and \<open>badDealer\<close> is false. In particular, when
  \<open>badDealer\<close> is false and \<open>t \<ge> 1\<close>, it is true with exactly \<open>t\<close> approvals and no
  complaints; and it is false with \<open>t - 1\<close> approvals.
\<close>

theorem deal_certified_iff:
  assumes "agg_reachable a"
  shows "DealCertified (Some a) =
           Inr (agg_t a \<le> int (approvals a) \<and> int (complaints a) < agg_t a \<and> \<not> agg_badDealer a)
       \<and> (int (approvals a) = agg_t a \<and> complaints a = 0 \<and> \<not> agg_badDealer a \<and> 1 \<le> agg_t a
            \<longrightarrow> DealCertified (Some a) = Inr True)
       \<and> (int (approvals a) = agg_t a - 1 \<longrightarrow> DealCertified (Some a) = Inr False)"
  by (auto simp: DealCertified_def EnoughApprovals_def reachable_counts [OF assms])

text \<open>
  Claim C4, amended, at a concrete state: threshold 2, the approvals of both verifiers, no
  complaint, \<open>badDealer\<close> false; the deal is certified.
\<close>

theorem deal_certified_iff_witness:
  "agg_reachable certified \<and> int (approvals certified) = agg_t certified \<and>
   complaints certified = 0 \<and> \<not> agg_badDealer certified \<and> 1 \<le> agg_t certified \<and>
   DealCertified (Some certified) = Inr True"
proof -
  have f: "agg_responses certified = [(0, toy_response 0 True), (1, toy_response 1 True)]"
    "agg_t certified = 2" "\<not> agg_badDealer certified"
    by (simp_all add: certified_eq toy_agg_fields)
  have c: "int (approvals certified) = 2" "int (complaints certified) = 0"
    unfolding reachable_counts [OF certified_reachable, symmetric]
    by (simp_all add: f toy_response_def)
  with deal_certified_iff [OF certified_reachable] certified_reachable f show ?thesis
    by simp
qed

text \<open>
  Claim C4 as stated fails in a reachable state: verifier 0 complains, a justification with
  a bad deal sets \<open>badDealer\<close>, a second justification with the good deal turns the
  complaint into an approval, and verifier 1 approves. There are exactly \<open>t = 2\<close> approvals
  and no complaints, and \<open>DealCertified\<close> is false. It also fails, with \<open>badDealer\<close> false,
  on the aggregator with threshold 0 and no responses: the count of complaints, 0, is not
  below the threshold.
\<close>

theorem deal_certified_counterexample:
  "agg_reachable both_approved \<and> agg_t both_approved = 2 \<and> approvals both_approved = 2 \<and>
   complaints both_approved = 0 \<and> DealCertified (Some both_approved) = Inr False \<and>
   agg_reachable zero_agg \<and> agg_t zero_agg = 0 \<and> approvals zero_agg = 0 \<and>
   complaints zero_agg = 0 \<and> \<not> agg_badDealer zero_agg \<and>
   DealCertified (Some zero_agg) = Inr False"
proof -
  have z: "agg_reachable zero_agg"
    unfolding zero_agg_def by (rule agg_reachable.reach_new)
  have zf: "agg_responses zero_agg = []" "agg_t zero_agg = 0" "\<not> agg_badDealer zero_agg"
    by (simp_all add: zero_agg_def newAggregator_def)
  have zc: "approvals zero_agg = 0" "complaints zero_agg = 0"
    by (simp_all add: approvals_def complaints_def stored_def zf)
  have zd: "DealCertified (Some zero_agg) = Inr False"
    by (simp add: DealCertified_def EnoughApprovals_def zf)
  have r: "agg_responses both_approved = [(0, toy_response 0 True), (1, toy_response 1 True)]"
    and t: "agg_t both_approved = 2" and b: "agg_badDealer both_approved"
    by (simp_all add: both_approved_eq latched_fields)
  have "int (approvals both_approved) = 2" "int (complaints both_approved) = 0"
    unfolding reachable_counts [OF both_approved_reachable, symmetric]
    by (simp_all add: r toy_response_def)
  then show ?thesis
    by (simp add: both_approved_reachable t b DealCertified_def EnoughApprovals_def z zf zc zd)
qed

subsection \<open>Duplicate responses\<close>

text \<open>
  Claim C7. When the aggregator already stores a response at the index of \<open>r\<close>, adding
  \<open>r\<close> fails with an error and leaves the aggregator exactly as it was, through
  \<open>addResponse\<close> and through \<open>verifyResponse\<close>; in a reachable state the error of
  \<open>addResponse\<close> is "already existing response from same origin".
\<close>

theorem duplicate_response_rejected:
  assumes "stored a (Response_Index r) \<noteq> None"
  shows "fst (addResponse a r) \<noteq> None \<and> snd (addResponse a r) = a \<and>
         fst (verifyResponse a r) \<noteq> None \<and> snd (verifyResponse a r) = a \<and>
         (agg_reachable a \<longrightarrow> addResponse a r = (Some ErrResponseExists, a))"
proof -
  from assms obtain r0 where r0: "map_of (agg_responses a) (Response_Index r) = Some r0"
    by (auto simp: stored_def)
  have add: "fst (addResponse a r) \<noteq> None \<and> snd (addResponse a r) = a"
    by (simp add: addResponse_def r0 split: option.splits)
  then have "fst (verifyResponse a r) \<noteq> None \<and> snd (verifyResponse a r) = a"
    by (simp add: verifyResponse_def split: option.splits)
  moreover have "addResponse a r = (Some ErrResponseExists, a)" if "agg_reachable a"
    using reachable_findPub [OF that, of "Response_Index r" r0] r0
    by (simp add: addResponse_def stored_def)
  ultimately show ?thesis using add by blast
qed

text \<open>
  Claim C7, at a concrete state: the aggregator holding the complaint of verifier 0 is
  given a second response of verifier 0.
\<close>

theorem duplicate_response_rejected_witness:
  "stored complained (Response_Index (toy_response 0 True)) \<noteq> None \<and>
   agg_reachable complained \<and>
   addResponse complained (toy_response 0 True) = (Some ErrResponseExists, complained) \<and>
   verifyResponse complained (toy_response 0 True) = (Some ErrResponseExists, complained)"
proof -
  have s: "stored complained (Response_Index (toy_response 0 True)) \<noteq> None"
    by (simp add: stored_def complained_fields toy_response_def)
  have r: "agg_reachable complained"
    unfolding complained_def toy_agg_def by (intro agg_reachable.intros)
  have v: "verifyResponse complained (toy_response 0 True) = addResponse complained (toy_response 0 True)"
    by (simp add: verifyResponse_def complained_fields toy_response_def findPub_def toy_def)
  from duplicate_response_rejected [OF s] r v show ?thesis using s by simp
qed

subsection \<open>Justifications\<close>

text \<open>
  Claim C8. Let the verifier's aggregator be in a reachable state. If it stores a complaint
  at \<open>j.Index\<close> and \<open>VerifyDeal(j.Deal, false)\<close> finds no error, then
  \<open>ProcessJustification(j)\<close> returns no error and afterwards the response stored at that
  index is the same response with \<open>Approved = true\<close>. If it stores no response at
  \<open>j.Index\<close>, or stores an approval there, \<open>ProcessJustification(j)\<close> returns an error and
  changes nothing.
\<close>

theorem justification_flips_complaint:
  assumes v: "v_aggregator v = Some a" and reach: "agg_reachable a"
  shows "(stored a (Justification_Index j) = Some r \<and> \<not> Response_Approved r \<and>
          fst (VerifyDeal a (Justification_Deal j) False) = None \<longrightarrow>
            fst (ProcessJustification v j) = None \<and>
            (\<exists>a'. v_aggregator (snd (ProcessJustification v j)) = Some a' \<and>
                  stored a' (Justification_Index j) = Some (r\<lparr>Response_Approved := True\<rparr>)))
       \<and> (stored a (Justification_Index j) = None \<or>
          (\<exists>r0. stored a (Justification_Index j) = Some r0 \<and> Response_Approved r0) \<longrightarrow>
            fst (ProcessJustification v j) \<noteq> None \<and> snd (ProcessJustification v j) = v)"
proof (intro conjI impI)
  assume h: "stored a (Justification_Index j) = Some r \<and> \<not> Response_Approved r \<and>
          fst (VerifyDeal a (Justification_Deal j) False) = None"
  then have fp: "findPub (agg_verifiers a) (Justification_Index j)
      = Some (agg_verifiers a ! unat (Justification_Index j))"
    using reachable_findPub [OF reach] by blast
  obtain a1 where vd: "VerifyDeal a (Justification_Deal j) False = (None, a1)"
    using h by (cases "VerifyDeal a (Justification_Deal j) False") auto
  have a1: "agg_responses a1 = agg_responses a"
    using VerifyDeal_frame(1) [of a "Justification_Deal j" False] by (simp add: vd)
  have vj: "verifyJustification a j =
      (None, a1\<lparr>agg_responses := approve (Justification_Index j) (agg_responses a1)\<rparr>)"
    using h by (simp add: verifyJustification_def fp stored_def vd)
  show "fst (ProcessJustification v j) = None"
    by (simp add: ProcessJustification_def v vj)
  show "\<exists>a'. v_aggregator (snd (ProcessJustification v j)) = Some a' \<and>
      stored a' (Justification_Index j) = Some (r\<lparr>Response_Approved := True\<rparr>)"
    using h by (simp add: ProcessJustification_def v vj stored_def map_of_approve a1)
next
  assume h: "stored a (Justification_Index j) = None \<or>
     (\<exists>r0. stored a (Justification_Index j) = Some r0 \<and> Response_Approved r0)"
  then have vj: "fst (verifyJustification a j) \<noteq> None \<and> snd (verifyJustification a j) = a"
    by (auto simp: verifyJustification_def stored_def split: option.splits)
  then show "fst (ProcessJustification v j) \<noteq> None"
    by (simp add: ProcessJustification_def v split_beta)
  show "snd (ProcessJustification v j) = v"
    using vj v by (simp add: ProcessJustification_def split_beta)
qed

text \<open>
  Claim C8, at a concrete state: the complaint of verifier 0 is answered with the good
  deal.
\<close>

theorem justification_flips_complaint_witness:
  "v_aggregator (toy_verifier toy (Some complained)) = Some complained \<and>
   agg_reachable complained \<and>
   stored complained 0 = Some (toy_response 0 False) \<and>
   \<not> Response_Approved (toy_response 0 False) \<and>
   fst (VerifyDeal complained (good_deal toy_sid) False) = None \<and>
   fst (ProcessJustification (toy_verifier toy (Some complained))
          (toy_justification (good_deal toy_sid))) = None \<and>
   (\<exists>a'. v_aggregator (snd (ProcessJustification (toy_verifier toy (Some complained))
             (toy_justification (good_deal toy_sid)))) = Some a' \<and>
         stored a' 0 = Some (toy_response 0 True))"
proof -
  have v: "v_aggregator (toy_verifier toy (Some complained)) = Some complained"
    by (simp add: toy_verifier_def)
  have s: "stored complained 0 = Some (toy_response 0 False)"
    by (simp add: stored_def complained_fields)
  have i: "Justification_Index (toy_justification (good_deal toy_sid)) = 0"
    "Justification_Deal (toy_justification (good_deal toy_sid)) = good_deal toy_sid"
    by (simp_all add: toy_justification_def)
  have f: "toy_response 0 False\<lparr>Response_Approved := True\<rparr> = toy_response 0 True"
    "\<not> Response_Approved (toy_response 0 False)"
    by (simp_all add: toy_response_def)
  from justification_flips_complaint [OF v complained_reachable,
      of "toy_justification (good_deal toy_sid)" "toy_response 0 False"]
  show ?thesis
    by (simp add: v s i f complained_reachable VerifyDeal_first_good)
qed

subsection \<open>The bad-dealer latch\<close>

lemma ProcessEncryptedDeal_latch:
  assumes "v_aggregator v = Some a" "agg_badDealer a"
  shows "\<exists>a'. v_aggregator (snd (ProcessEncryptedDeal v e)) = Some a' \<and> agg_badDealer a'"
proof (cases "decryptDeal v e")
  case (Inl err)
  with assms show ?thesis by (simp add: ProcessEncryptedDeal_def)
next
  case (Inr d)
  obtain err a1 where vd: "VerifyDeal a d True = (err, a1)"
    by (cases "VerifyDeal a d True")
  have b1: "agg_badDealer a1" using VerifyDeal_result(3) [OF vd] assms(2) by simp
  define r where "r = \<lparr>Response_SessionID =
      sessionID (v_suite v) (v_dealer v) (v_verifiers v) (Deal_Commitments d) (uint (Deal_T d)),
      Response_Index = word_of_int (v_index v), Response_Approved = (err = None),
      Response_Signature = []\<rparr>"
  show ?thesis
  proof (cases "schnorr (v_suite v) (v_longterm v) (Response_Hash (v_suite v) r)")
    case None
    with assms Inr vd b1 show ?thesis
      by (simp add: ProcessEncryptedDeal_def Let_def r_def)
  next
    case (Some sg)
    obtain err2 a2 where ar: "addResponse a1 (r\<lparr>Response_Signature := sg\<rparr>) = (err2, a2)"
      by (cases "addResponse a1 (r\<lparr>Response_Signature := sg\<rparr>)")
    have b2: "agg_badDealer a2" using addResponse_result(2) [OF ar] b1 by simp
    from assms Inr vd b1 Some ar b2 show ?thesis
      by (cases err2) (simp_all add: ProcessEncryptedDeal_def Let_def r_def [symmetric])
  qed
qed

lemma ProcessResponse_latch:
  assumes "v_aggregator v = Some a" "agg_badDealer a"
  shows "\<exists>a'. v_aggregator (snd (ProcessResponse v r)) = Some a' \<and> agg_badDealer a'"
  using assms verifyResponse_frame(2) [of a r]
  by (simp add: ProcessResponse_def split_beta)

lemma ProcessJustification_latch:
  assumes "v_aggregator v = Some a" "agg_badDealer a"
  shows "\<exists>a'. v_aggregator (snd (ProcessJustification v j)) = Some a' \<and> agg_badDealer a'"
  using assms verifyJustification_badDealer [of a j]
  by (simp add: ProcessJustification_def split_beta)

lemma run_latch:
  "v_aggregator v = Some a \<Longrightarrow> agg_badDealer a \<Longrightarrow>
     \<exists>a'. v_aggregator (run v cs) = Some a' \<and> agg_badDealer a'"
proof (induction cs arbitrary: v a)
  case Nil
  then show ?case by (simp add: run_def)
next
  case (Cons c cs)
  have "\<exists>a'. v_aggregator (step v c) = Some a' \<and> agg_badDealer a'"
    using Cons.prems
    by (cases c)
      (simp_all add: ProcessEncryptedDeal_latch ProcessResponse_latch ProcessJustification_latch)
  then obtain a' where "v_aggregator (step v c) = Some a'" "agg_badDealer a'" by blast
  from Cons.IH [OF this] show ?case by (simp add: run_def)
qed

lemma latched_not_certified:
  "v_aggregator v = Some a \<Longrightarrow> agg_badDealer a \<Longrightarrow> Verifier_DealCertified v = Inr False"
  by (simp add: Verifier_DealCertified_def DealCertified_def EnoughApprovals_def)

text \<open>
  Claim C5. Let the verifier's aggregator be in a reachable state that stores a complaint at
  \<open>j.Index\<close>, and let \<open>VerifyDeal(j.Deal, false)\<close> fail. Then \<open>ProcessJustification(j)\<close>
  returns an error, and in the state it leaves and in every state a further sequence of
  \<open>ProcessEncryptedDeal\<close>, \<open>ProcessResponse\<close> and \<open>ProcessJustification\<close> calls leads to,
  \<open>badDealer\<close> is true and \<open>DealCertified\<close> returns false.
\<close>

theorem bad_dealer_latch:
  assumes v: "v_aggregator v = Some a" and reach: "agg_reachable a"
    and c: "stored a (Justification_Index j) = Some r" "\<not> Response_Approved r"
    and bad: "fst (VerifyDeal a (Justification_Deal j) False) \<noteq> None"
  shows "fst (ProcessJustification v j) \<noteq> None \<and>
         (\<forall>cs. \<exists>a'. v_aggregator (run (snd (ProcessJustification v j)) cs) = Some a' \<and>
                agg_badDealer a' \<and>
                Verifier_DealCertified (run (snd (ProcessJustification v j)) cs) = Inr False)"
proof -
  have fp: "findPub (agg_verifiers a) (Justification_Index j)
      = Some (agg_verifiers a ! unat (Justification_Index j))"
    by (rule reachable_findPub [OF reach c(1)])
  obtain err a1 where vd: "VerifyDeal a (Justification_Deal j) False = (Some err, a1)"
    using bad by (cases "VerifyDeal a (Justification_Deal j) False") auto
  have vj: "verifyJustification a j = (Some err, a1\<lparr>agg_badDealer := True\<rparr>)"
    using c by (simp add: verifyJustification_def fp stored_def vd)
  have pj: "ProcessJustification v j = (Some err, v\<lparr>v_aggregator := Some (a1\<lparr>agg_badDealer := True\<rparr>)\<rparr>)"
    by (simp add: ProcessJustification_def v vj)
  have "\<exists>a'. v_aggregator (run (snd (ProcessJustification v j)) cs) = Some a' \<and> agg_badDealer a' \<and>
      Verifier_DealCertified (run (snd (ProcessJustification v j)) cs) = Inr False" for cs
  proof -
    obtain a' where a': "v_aggregator (run (snd (ProcessJustification v j)) cs) = Some a'"
        "agg_badDealer a'"
      using run_latch [of "snd (ProcessJustification v j)" "a1\<lparr>agg_badDealer := True\<rparr>" cs]
      by (auto simp: pj)
    with latched_not_certified [OF a'] show ?thesis by simp
  qed
  then show ?thesis by (simp add: pj)
qed

text \<open>
  Claim C5, at a concrete run: the complaint of verifier 0 is answered with the bad deal,
  then with the good deal, then verifier 1 approves; the deal is not certified.
\<close>

theorem bad_dealer_latch_witness:
  "v_aggregator (toy_verifier toy (Some complained)) = Some complained \<and>
   agg_reachable complained \<and>
   stored complained (Justification_Index (toy_justification (bad_deal toy_sid)))
     = Some (toy_response 0 False) \<and>
   \<not> Response_Approved (toy_response 0 False) \<and>
   fst (VerifyDeal complained (Justification_Deal (toy_justification (bad_deal toy_sid))) False)
     \<noteq> None \<and>
   fst (ProcessJustification (toy_verifier toy (Some complained))
          (toy_justification (bad_deal toy_sid))) \<noteq> None \<and>
   Verifier_DealCertified
     (run (snd (ProcessJustification (toy_verifier toy (Some complained))
                  (toy_justification (bad_deal toy_sid))))
          [CallJustification (toy_justification (good_deal toy_sid)),
           CallResponse (toy_response 1 True)]) = Inr False"
proof -
  have v: "v_aggregator (toy_verifier toy (Some complained)) = Some complained"
    by (simp add: toy_verifier_def)
  have s: "stored complained (Justification_Index (toy_justification (bad_deal toy_sid)))
      = Some (toy_response 0 False)"
    by (simp add: stored_def complained_fields toy_justification_def)
  have n: "\<not> Response_Approved (toy_response 0 False)"
    by (simp add: toy_response_def)
  have b: "fst (VerifyDeal complained (Justification_Deal (toy_justification (bad_deal toy_sid)))
      False) \<noteq> None"
    by (simp add: toy_justification_def VerifyDeal_bad)
  from bad_dealer_latch [OF v complained_reachable s n b] v complained_reachable s n b
  show ?thesis by blast
qed

subsection \<open>A verifier without aggregator\<close>

text \<open>
  Claim C10. On a verifier whose embedded aggregator is still \<open>nil\<close>, as on every verifier
  \<open>NewVerifier\<close> returns, \<open>DealCertified\<close> returns false and does not panic.
\<close>

theorem nil_aggregator_not_certified:
  "(v_aggregator v = None \<longrightarrow> Verifier_DealCertified v = Inr False) \<and>
   (NewVerifier suite longterm dealerKey verifiers = Inr v \<longrightarrow>
      v_aggregator v = None \<and> Verifier_DealCertified v = Inr False)"
  by (auto simp: Verifier_DealCertified_def DealCertified_def NewVerifier_def Let_def
      split: list.splits)

text \<open>
  Claim C10, at a concrete verifier; \<open>EnoughApprovals\<close>, which does not test its receiver,
  panics on it.
\<close>

theorem nil_aggregator_not_certified_witness:
  "NewVerifier toy 3 9 [3, 4] = Inr (toy_verifier toy None) \<and>
   v_aggregator (toy_verifier toy None) = None \<and>
   Verifier_DealCertified (toy_verifier toy None) = Inr False \<and>
   Verifier_EnoughApprovals (toy_verifier toy None) = Inl Panic"
  using nil_aggregator_not_certified [of "toy_verifier toy None" toy 3 9 "[3, 4]"]
    NewVerifier_toy [of "\<lambda>b. None"]
  by (simp add: toy_def Verifier_EnoughApprovals_def EnoughApprovals_def toy_verifier_def)

subsection \<open>The session identifier of a deal\<close>

lemma VerifyDeal_first_sid:
  "fst (VerifyDeal (newAggregator suite dealer verifiers commitments t (Deal_SessionID d)) d True)
 = fst (VerifyDeal (newAggregator suite dealer verifiers commitments t sid)
          (d\<lparr>Deal_SessionID := sid\<rparr>) True)"
  by (simp add: VerifyDeal_def newAggregator_def Let_def)

text \<open>
  For an encrypted deal that decrypts to \<open>d\<close> with the verifier's index, every response
  \<open>ProcessEncryptedDeal\<close> returns carries the recomputed session identifier
  \<open>sid' = H2(dealer, verifiers, d.Commitments, d.T)\<close> and the verifier's index, and it
  approves exactly when \<open>VerifyDeal\<close> finds no error. \<open>VerifyDeal\<close> does compare the
  deal's \<open>SessionID\<close> with the aggregator's, but a new aggregator is created with the deal's
  own \<open>SessionID\<close>, so on a first deal its verdict is the same as for the deal with any
  other \<open>SessionID\<close>.
\<close>

lemma ProcessEncryptedDeal_response:
  assumes dec: "decryptDeal v e = Inr d" and idx: "PriShare_I (Deal_SecShare d) = v_index v"
  shows "(\<forall>r v'. ProcessEncryptedDeal v e = (Inr r, v') \<longrightarrow>
            Response_SessionID r =
              sessionID (v_suite v) (v_dealer v) (v_verifiers v) (Deal_Commitments d)
                (uint (Deal_T d)) \<and>
            Response_Index r = word_of_int (v_index v) \<and>
            (Response_Approved r \<longleftrightarrow>
               fst (VerifyDeal
                     (case v_aggregator v of
                        None \<Rightarrow> newAggregator (v_suite v) (v_dealer v) (v_verifiers v)
                                  (Deal_Commitments d) (uint (Deal_T d)) (Deal_SessionID d)
                      | Some a \<Rightarrow> a) d True) = None))
       \<and> (\<forall>sid. fst (VerifyDeal
                     (newAggregator (v_suite v) (v_dealer v) (v_verifiers v)
                        (Deal_Commitments d) (uint (Deal_T d)) (Deal_SessionID d)) d True)
               = fst (VerifyDeal
                     (newAggregator (v_suite v) (v_dealer v) (v_verifiers v)
                        (Deal_Commitments d) (uint (Deal_T d)) sid)
                     (d\<lparr>Deal_SessionID := sid\<rparr>) True))"
proof (intro conjI allI impI)
  fix r v'
  assume res: "ProcessEncryptedDeal v e = (Inr r, v')"
  define a0 where "a0 = (case v_aggregator v of
      None \<Rightarrow> newAggregator (v_suite v) (v_dealer v) (v_verifiers v)
                (Deal_Commitments d) (uint (Deal_T d)) (Deal_SessionID d)
    | Some a \<Rightarrow> a)"
  obtain err a1 where vd: "VerifyDeal a0 d True = (err, a1)"
    by (cases "VerifyDeal a0 d True")
  from res have "Response_SessionID r =
      sessionID (v_suite v) (v_dealer v) (v_verifiers v) (Deal_Commitments d) (uint (Deal_T d)) \<and>
      Response_Index r = word_of_int (v_index v) \<and> (Response_Approved r \<longleftrightarrow> err = None)"
    unfolding ProcessEncryptedDeal_def
    by (auto simp: dec idx Let_def a0_def [symmetric] vd
        split: if_splits option.splits prod.splits)
  then show "Response_SessionID r =
      sessionID (v_suite v) (v_dealer v) (v_verifiers v) (Deal_Commitments d) (uint (Deal_T d))"
    and "Response_Index r = word_of_int (v_index v)"
    and "Response_Approved r \<longleftrightarrow> fst (VerifyDeal
                     (case v_aggregator v of
                        None \<Rightarrow> newAggregator (v_suite v) (v_dealer v) (v_verifiers v)
                                  (Deal_Commitments d) (uint (Deal_T d)) (Deal_SessionID d)
                      | Some a \<Rightarrow> a) d True) = None"
    by (simp_all add: a0_def [symmetric] vd)
next
  fix sid
  show "fst (VerifyDeal
                     (newAggregator (v_suite v) (v_dealer v) (v_verifiers v)
                        (Deal_Commitments d) (uint (Deal_T d)) (Deal_SessionID d)) d True)
               = fst (VerifyDeal
                     (newAggregator (v_suite v) (v_dealer v) (v_verifiers v)
                        (Deal_Commitments d) (uint (Deal_T d)) sid)
                     (d\<lparr>Deal_SessionID := sid\<rparr>) True)"
    by (rule VerifyDeal_first_sid)
qed

lemma toy_process_deal_state:
  "ProcessEncryptedDeal (toy_verifier (toy_suite (\<lambda>b. Some (good_deal []))) None) toy_encrypted
     = (Inr \<lparr>Response_SessionID = [9, 3, 4, 7, 5, 2, 0, 0, 0], Response_Index = 0,
             Response_Approved = True, Response_Signature = []\<rparr>,
        toy_verifier (toy_suite (\<lambda>b. Some (good_deal [])))
          (Some ((newAggregator (toy_suite (\<lambda>b. Some (good_deal []))) 9 [3, 4] [7, 5] 2 [])
             \<lparr>agg_responses :=
                [(0, \<lparr>Response_SessionID = [9, 3, 4, 7, 5, 2, 0, 0, 0], Response_Index = 0,
                       Response_Approved = True, Response_Signature = []\<rparr>)],
              agg_deal := Some (good_deal [])\<rparr>)))"
proof -
  have g: "Deal_Commitments (good_deal []) = [7, 5]" "uint (Deal_T (good_deal [])) = 2"
    "Deal_SessionID (good_deal []) = []" "PriShare_I (Deal_SecShare (good_deal [])) = 0"
    by (simp_all add: good_deal_def)
  have f: "v_suite (toy_verifier s ao) = s" "v_index (toy_verifier s ao) = 0"
    "v_dealer (toy_verifier s ao) = 9" "v_verifiers (toy_verifier s ao) = [3, 4]"
    "v_longterm (toy_verifier s ao) = 3" "v_aggregator (toy_verifier s ao) = ao" for s ao
    by (simp_all add: toy_verifier_def)
  show ?thesis
    by (simp add: ProcessEncryptedDeal_def decrypt_toy g f sessionID_toy [unfolded toy_sid_def]
        VerifyDeal_new_good)
      (simp add: addResponse_def findPub_def newAggregator_def Let_def toy_verifier_def)
qed

text \<open>
  Claim C3, evaluated on a first deal whose \<open>SessionID\<close> is \<open>[]\<close>: the deal decrypts, has
  the verifier's index, and the recomputed session identifier is
  \<open>[9, 3, 4, 7, 5, 2, 0, 0, 0]\<close>. The claim asks for an error and no approval;
  \<open>ProcessEncryptedDeal\<close> returns an approval that carries the recomputed identifier. The
  verifier's aggregator is left with the deal's \<open>SessionID\<close> \<open>[]\<close>, so the approval of the
  other verifier, which carries the recomputed identifier, is then refused as inconsistent.
\<close>

theorem session_id_mismatch_approved:
  "decryptDeal (toy_verifier (toy_suite (\<lambda>b. Some (good_deal []))) None) toy_encrypted
     = Inr (good_deal []) \<and>
   PriShare_I (Deal_SecShare (good_deal []))
     = v_index (toy_verifier (toy_suite (\<lambda>b. Some (good_deal []))) None) \<and>
   sessionID (toy_suite (\<lambda>b. Some (good_deal []))) 9 [3, 4] (Deal_Commitments (good_deal []))
     (uint (Deal_T (good_deal []))) = [9, 3, 4, 7, 5, 2, 0, 0, 0] \<and>
   Deal_SessionID (good_deal []) = [] \<and>
   fst (ProcessEncryptedDeal (toy_verifier (toy_suite (\<lambda>b. Some (good_deal []))) None)
          toy_encrypted)
     = Inr \<lparr>Response_SessionID = [9, 3, 4, 7, 5, 2, 0, 0, 0], Response_Index = 0, Response_Approved = True,
            Response_Signature = []\<rparr> \<and>
   map_option agg_sid
     (v_aggregator (snd (ProcessEncryptedDeal
        (toy_verifier (toy_suite (\<lambda>b. Some (good_deal []))) None) toy_encrypted))) = Some [] \<and>
   fst (ProcessResponse
         (snd (ProcessEncryptedDeal
            (toy_verifier (toy_suite (\<lambda>b. Some (good_deal []))) None) toy_encrypted))
         \<lparr>Response_SessionID = [9, 3, 4, 7, 5, 2, 0, 0, 0], Response_Index = 1,
           Response_Approved = True, Response_Signature = []\<rparr>)
     = Some ErrInconsistentSessionID"
proof -
  have d: "decryptDeal (toy_verifier (toy_suite (\<lambda>b. Some (good_deal []))) None) toy_encrypted
      = Inr (good_deal [])"
    by (rule decrypt_toy)
  have s: "sessionID (toy_suite (\<lambda>b. Some (good_deal []))) 9 [3, 4]
      (Deal_Commitments (good_deal [])) (uint (Deal_T (good_deal []))) = [9, 3, 4, 7, 5, 2, 0, 0, 0]"
    using sessionID_toy [of "\<lambda>b. Some (good_deal [])"] by (simp add: good_deal_def toy_sid_def)
  show ?thesis
    by (simp add: d s toy_process_deal_state)
      (simp add: good_deal_def toy_verifier_def ProcessResponse_def verifyResponse_def
        newAggregator_def)
qed

end
